theory Spec2Isabelle
  imports Main
begin

section \<open>The shared objects and the processes of \<open>sem_and_share.cpp\<close>\<close>

text \<open>
  The program creates one System V semaphore set of six semaphores and five one-integer
  shared memory segments, forks five children that each run \<open>open_and_write\<close>, waits
  for them and removes the objects. The model keeps the state the source works on:
  the values of the semaphores (\<open>semval\<close>), the integers \<open>*shm_ary[k]\<close> (\<open>shm\<close>), the
  identifiers of the segments (\<open>shmIds\<close>), whether the semaphore set exists
  (\<open>semset\<close>), the lines this run appended to each file, the lines printed, and one
  record for each child.

  Every \<open>semop\<close> of the source carries \<open>SEM_UNDO\<close>, so the kernel keeps for each
  process the adjustment \<open>semadj\<close> it owes to each semaphore and applies it when the
  process exits.
\<close>

datatype line = Being_used_by string nat | Free_from_the string nat

datatype msg =
    Writing_to string nat string
  | Freed_up_access_to string nat string
  | Resources_are_in_use
  | Failed_getting_shared_memory
  | Fork_Failed

record proc =
  pc :: nat
  semadj :: "int list"
  db1 :: bool
  db2 :: bool
  status :: "int option"

record state =
  semset :: bool
  semval :: "int list"
  shmIds :: "int list"
  shm :: "int list"
  procs :: "proc list"
  appended :: "string \<Rightarrow> line list"
  console :: "msg list"

text \<open>
  What the run cannot decide itself: the result of the k-th \<open>shmget\<close> and of the k-th
  \<open>fork\<close> (\<open>-1\<close> is failure), and the files that cannot be opened for appending.
\<close>

record env =
  shmget :: "nat \<Rightarrow> int"
  fork :: "nat \<Rightarrow> int"
  denied :: "string \<Rightarrow> bool"

definition PROC_COUNT :: nat where
  "PROC_COUNT = 5"

definition say :: "msg \<Rightarrow> state \<Rightarrow> state" where
  "say m s = s\<lparr>console := console s @ [m]\<rparr>"

definition upd_proc :: "nat \<Rightarrow> (proc \<Rightarrow> proc) \<Rightarrow> state \<Rightarrow> state" where
  "upd_proc i f s = s\<lparr>procs := (procs s)[i := f (procs s ! i)]\<rparr>"

subsection \<open>The semaphore and shared memory helpers\<close>

text \<open>\<open>create_semaphore_set\<close>: \<open>semget\<close> of \<open>num_of_sems\<close> semaphores.\<close>

definition create_semaphore_set :: "nat \<Rightarrow> state \<Rightarrow> state" where
  "create_semaphore_set num_of_sems s = s\<lparr>semset := True, semval := replicate num_of_sems 0\<rparr>"

text \<open>\<open>init_sem\<close>: \<open>semctl(semSet, semid, SETVAL, value)\<close>.\<close>

definition init_sem :: "state \<Rightarrow> nat \<Rightarrow> int \<Rightarrow> state" where
  "init_sem s semid v = s\<lparr>semval := (semval s)[semid := v]\<rparr>"

text \<open>
  \<open>acquire_resource\<close>: \<open>semop\<close> with \<open>sem_op = -1\<close> and \<open>SEM_UNDO\<close>. The caller sleeps
  (\<open>None\<close>: no step) until the value is positive; then the value goes down by one and the
  caller's adjustment up by one. The source ignores the result of \<open>semop\<close>, so a
  semaphore number outside the set (\<open>EFBIG\<close>) changes nothing and the caller goes on.
\<close>

definition acquire_resource :: "state \<Rightarrow> nat \<Rightarrow> nat \<Rightarrow> state option" where
  "acquire_resource s i semid =
     (if semid < length (semval s) then
        (if 0 < semval s ! semid then
           Some (upd_proc i (\<lambda>p. p\<lparr>semadj := (semadj p)[semid := semadj p ! semid + 1]\<rparr>)
                   (s\<lparr>semval := (semval s)[semid := semval s ! semid - 1]\<rparr>))
         else None)
      else Some s)"

text \<open>\<open>release_resource\<close>: \<open>semop\<close> with \<open>sem_op = 1\<close> and \<open>SEM_UNDO\<close>; it never sleeps.\<close>

definition release_resource :: "state \<Rightarrow> nat \<Rightarrow> nat \<Rightarrow> state" where
  "release_resource s i semid =
     (if semid < length (semval s) then
        upd_proc i (\<lambda>p. p\<lparr>semadj := (semadj p)[semid := semadj p ! semid - 1]\<rparr>)
          (s\<lparr>semval := (semval s)[semid := semval s ! semid + 1]\<rparr>)
      else s)"

text \<open>
  \<open>exit(code)\<close> in a child: the kernel adds the process's adjustments back to the
  semaphores and forgets them; the parent could read \<open>code mod 256\<close> as the status.
\<close>

definition exit_proc :: "int \<Rightarrow> nat \<Rightarrow> state \<Rightarrow> state" where
  "exit_proc code i s =
     upd_proc i (\<lambda>p. p\<lparr>semadj := map (\<lambda>_. 0) (semadj p), status := Some (code mod 256)\<rparr>)
       (s\<lparr>semval := map2 (+) (semval s) (semadj (procs s ! i))\<rparr>)"

subsection \<open>\<open>open_and_write\<close>\<close>

definition sem1 :: "nat \<Rightarrow> nat" where
  "sem1 i = i"

definition sem2 :: "nat \<Rightarrow> nat" where
  "sem2 i = (if i + 1 = 5 then 0 else i + 1)"

text \<open>
  The \<open>switch (i)\<close>: system name, \<open>db1filename\<close>, \<open>db2filename\<close>. The source has no
  default case and leaves the three pointers uninitialised for any other \<open>i\<close>.
\<close>

definition switch_i :: "nat \<Rightarrow> (string \<times> string \<times> string) option" where
  "switch_i i =
     (if i = 0 then Some (''Courses System'', ''faculty.txt'', ''students.txt'')
      else if i = 1 then Some (''GPA Computation System'', ''students.txt'', ''statistics.txt'')
      else if i = 2 then Some (''University Statistics System'', ''statistics.txt'', ''staff.txt'')
      else if i = 3 then Some (''Staff Management System'', ''staff.txt'', ''salary.txt'')
      else if i = 4 then Some (''Faculty Payroll System'', ''salary.txt'', ''faculty.txt'')
      else None)"

datatype db = Db1 | Db2

datatype phase = Used | Free

datatype notice = Writing | Freed

text \<open>
  The statements of \<open>open_and_write\<close> that touch shared state or the outside, one
  constructor for each kind, in the order of the source. \<open>Check r\<close> is the test
  \<open>if (*shm_ary[r] == 0)\<close> with its \<open>else\<close> branch (print and \<open>exit(-1)\<close>); \<open>SetBusy r\<close> is
  the store of 1 in the \<open>then\<close> branch. The \<open>debug\<close> prints are left out (\<open>debug\<close> is
  \<open>false\<close>).
\<close>

datatype instr =
    Acquire nat
  | Release nat
  | Check nat
  | SetBusy nat
  | SetFree nat
  | Open db
  | Write db phase
  | Close db
  | Say db notice
  | Sleep

definition open_and_write :: "nat \<Rightarrow> instr list" where
  "open_and_write i =
     [Acquire 5, Acquire (sem1 i), Acquire (sem2 i),
      Check (sem1 i), SetBusy (sem1 i),
      Check (sem2 i), SetBusy (sem2 i),
      Open Db1, Open Db2,
      Say Db1 Writing, Write Db1 Used, Sleep,
      Say Db2 Writing, Write Db2 Used, Sleep,
      Write Db1 Free, Write Db2 Free,
      Close Db1, SetFree (sem1 i), Release (sem1 i), Say Db1 Freed,
      Close Db2, SetFree (sem2 i), Release (sem2 i), Say Db2 Freed,
      Release 5]"

definition filename :: "db \<Rightarrow> string \<times> string \<times> string \<Rightarrow> string" where
  "filename d t = (case t of (systemName, db1filename, db2filename) \<Rightarrow>
     (case d of Db1 \<Rightarrow> db1filename | Db2 \<Rightarrow> db2filename))"

definition good :: "db \<Rightarrow> proc \<Rightarrow> bool" where
  "good d p = (case d of Db1 \<Rightarrow> db1 p | Db2 \<Rightarrow> db2 p)"

definition set_good :: "db \<Rightarrow> bool \<Rightarrow> proc \<Rightarrow> proc" where
  "set_good d b p = (case d of Db1 \<Rightarrow> p\<lparr>db1 := b\<rparr> | Db2 \<Rightarrow> p\<lparr>db2 := b\<rparr>)"

definition mk_line :: "phase \<Rightarrow> string \<Rightarrow> nat \<Rightarrow> line" where
  "mk_line ph systemName i = (case ph of Used \<Rightarrow> Being_used_by systemName i
                                        | Free \<Rightarrow> Free_from_the systemName i)"

definition mk_msg :: "notice \<Rightarrow> string \<Rightarrow> nat \<Rightarrow> string \<Rightarrow> msg" where
  "mk_msg n systemName i f = (case n of Writing \<Rightarrow> Writing_to systemName i f
                                       | Freed \<Rightarrow> Freed_up_access_to systemName i f)"

text \<open>
  One statement of child \<open>i\<close>. \<open>None\<close> is: the child cannot take this step now (it
  sleeps in \<open>semop\<close>), or the source has no defined behaviour (an index outside
  \<open>shm_ary\<close>, a file name the \<open>switch\<close> never set). A stream whose \<open>open\<close> failed drops
  what is written to it. The process identifier printed by the source is the child's
  number here.
\<close>

fun exec :: "env \<Rightarrow> nat \<Rightarrow> instr \<Rightarrow> state \<Rightarrow> state option" where
  "exec e i (Acquire r) s = acquire_resource s i r"
| "exec e i (Release r) s = Some (release_resource s i r)"
| "exec e i (Check r) s =
     (if r < length (shm s) then
        (if shm s ! r = 0 then Some s
         else Some (exit_proc (- 1) i (say Resources_are_in_use s)))
      else None)"
| "exec e i (SetBusy r) s =
     (if r < length (shm s) then Some (s\<lparr>shm := (shm s)[r := 1]\<rparr>) else None)"
| "exec e i (SetFree r) s =
     (if r < length (shm s) then Some (s\<lparr>shm := (shm s)[r := 0]\<rparr>) else None)"
| "exec e i (Open d) s =
     (case switch_i i of None \<Rightarrow> None
      | Some t \<Rightarrow> Some (upd_proc i (set_good d (\<not> denied e (filename d t))) s))"
| "exec e i (Write d ph) s =
     (case switch_i i of None \<Rightarrow> None
      | Some t \<Rightarrow>
          Some (if good d (procs s ! i)
                then s\<lparr>appended := (appended s)
                        (filename d t := appended s (filename d t) @ [mk_line ph (fst t) i])\<rparr>
                else s))"
| "exec e i (Close d) s = Some (upd_proc i (set_good d False) s)"
| "exec e i (Say d n) s =
     (case switch_i i of None \<Rightarrow> None
      | Some t \<Rightarrow> Some (say (mk_msg n (fst t) i (filename d t)) s))"
| "exec e i Sleep s = Some s"

text \<open>
  One scheduling step of child \<open>i\<close>: its next statement, or, after the last one, the
  \<open>exit(0)\<close> that follows the call in \<open>main\<close>. A child that has exited takes no step.
\<close>

definition step :: "env \<Rightarrow> nat \<Rightarrow> state \<Rightarrow> state option" where
  "step e i s =
     (if i < length (procs s) \<and> status (procs s ! i) = None then
        (let k = pc (procs s ! i) in
         map_option (upd_proc i (\<lambda>p. p\<lparr>pc := Suc (pc p)\<rparr>))
           (if k < length (open_and_write i) then exec e i (open_and_write i ! k) s
            else Some (exit_proc 0 i s)))
      else None)"

fun run :: "env \<Rightarrow> nat list \<Rightarrow> state \<Rightarrow> state option" where
  "run e [] s = Some s"
| "run e (i # sched) s = (case step e i s of None \<Rightarrow> None | Some s' \<Rightarrow> run e sched s')"

subsection \<open>\<open>main\<close>\<close>

text \<open>
  The calls whose result the source does not test (\<open>semget\<close>, \<open>semctl\<close>, \<open>shmat\<close>,
  \<open>semop\<close> inside the set) succeed in the model; \<open>shmget\<close> and \<open>fork\<close>, whose failure the
  source handles, take their results from the environment. A child that has been
  forked and has not yet taken a step cannot be told from one that is forked later,
  so the children take their steps from a state in which all five exist. The steps
  of different children interleave in any order; a step is one statement.
\<close>

definition start :: state where
  "start = \<lparr>semset = False, semval = [], shmIds = [], shm = [], procs = [],
            appended = (\<lambda>f. []), console = []\<rparr>"

definition child :: proc where
  "child = \<lparr>pc = 0, semadj = replicate 6 0, db1 = False, db2 = False, status = None\<rparr>"

text \<open>
  The first loop of \<open>main\<close>: \<open>Inl\<close> is the state \<open>exit(-1)\<close> leaves behind when
  \<open>create_shared_mem_id\<close> fails.
\<close>

fun setup_loop :: "env \<Rightarrow> nat list \<Rightarrow> state \<Rightarrow> state + state" where
  "setup_loop e [] s = Inr s"
| "setup_loop e (sem # sems) s =
     (let s1 = init_sem s sem 1; ident = shmget e sem in
      if ident \<noteq> - 1
      then setup_loop e sems (s1\<lparr>shmIds := shmIds s1 @ [ident], shm := shm s1 @ [0]\<rparr>)
      else Inl (say Failed_getting_shared_memory s1))"

text \<open>The loop of \<open>fork\<close> calls: \<open>Inl\<close> is the state \<open>exit(-1)\<close> leaves behind.\<close>

fun fork_loop :: "env \<Rightarrow> nat list \<Rightarrow> state \<Rightarrow> state + state" where
  "fork_loop e [] s = Inr s"
| "fork_loop e (i # rest) s =
     (if fork e i < 0 then Inl (say Fork_Failed s)
      else fork_loop e rest (s\<lparr>procs := procs s @ [child]\<rparr>))"

definition boot :: "env \<Rightarrow> state + state" where
  "boot e =
     (case setup_loop e [0..<5] (create_semaphore_set 6 start) of
        Inl s \<Rightarrow> Inl s
      | Inr s \<Rightarrow> fork_loop e [0..<PROC_COUNT] (init_sem s 5 4))"

text \<open>The end of \<open>main\<close>: every segment and the semaphore set are removed.\<close>

definition teardown :: "state \<Rightarrow> state" where
  "teardown s = s\<lparr>shmIds := [], shm := [], semset := False, semval := []\<rparr>"

definition all_exited :: "state \<Rightarrow> bool" where
  "all_exited s = list_all (\<lambda>p. status p \<noteq> None) (procs s)"

text \<open>
  The rest of \<open>main\<close> after the forks: the \<open>wait\<close> loop, which ends when every child
  has exited, then the removal of the objects and \<open>exit(0)\<close>. \<open>wait(NULL)\<close> does not
  read the children's statuses. The children run under a schedule; \<open>None\<close>: the
  schedule is not a run of the children to their end, the parent is still in \<open>wait\<close>.
\<close>

definition wait_all :: "env \<Rightarrow> nat list \<Rightarrow> state \<Rightarrow> (int \<times> state) option" where
  "wait_all e sched s0 =
     (case run e sched s0 of
        None \<Rightarrow> None
      | Some s \<Rightarrow> if all_exited s then Some (0, teardown s) else None)"

text \<open>
  \<open>main\<close>: the parent's exit status (\<open>exit(-1)\<close> is read as 255) and the state it
  leaves behind.
\<close>

definition main :: "env \<Rightarrow> nat list \<Rightarrow> (int \<times> state) option" where
  "main e sched =
     (case boot e of
        Inl s \<Rightarrow> Some ((- 1) mod 256, s)
      | Inr s0 \<Rightarrow> wait_all e sched s0)"

text \<open>The states the children can reach after a successful start.\<close>

inductive reachable :: "env \<Rightarrow> state \<Rightarrow> bool" for e :: env where
  reach_boot: "boot e = Inr s \<Longrightarrow> reachable e s"
| reach_step: "reachable e s \<Longrightarrow> step e i s = Some s' \<Longrightarrow> reachable e s'"

section \<open>Notions used to state the properties\<close>

text \<open>
  Child \<open>i\<close> holds semaphore \<open>r\<close> when it has taken a unit of \<open>r\<close> that it has not
  given back: the adjustment the kernel keeps for it is positive. For the gate
  (semaphore 5) this is "past \<open>enter\<close> and not yet past \<open>leave\<close>".
\<close>

definition holds :: "state \<Rightarrow> nat \<Rightarrow> nat \<Rightarrow> bool" where
  "holds s i r = (i < length (procs s) \<and> r < length (semadj (procs s ! i)) \<and>
                  0 < semadj (procs s ! i) ! r)"

text \<open>
  The state of the circular wait: a running child that holds its first resource and
  not its second one.
\<close>

definition waits_for_next :: "state \<Rightarrow> nat \<Rightarrow> bool" where
  "waits_for_next s i =
     (status (procs s ! i) = None \<and> holds s i (sem1 i) \<and> \<not> holds s i (sem2 i))"

text \<open>
  Reading the statement list of a child: the acquisitions among its statements, and
  the place of the first occurrence of a statement (the length of the list when there
  is none).
\<close>

fun is_acquire :: "instr \<Rightarrow> bool" where
  "is_acquire (Acquire r) = True"
| "is_acquire ins = False"

fun acquires :: "instr list \<Rightarrow> nat list" where
  "acquires [] = []"
| "acquires (Acquire r # rest) = r # acquires rest"
| "acquires (ins # rest) = acquires rest"

fun pos :: "instr \<Rightarrow> instr list \<Rightarrow> nat" where
  "pos x [] = 0"
| "pos x (y # ys) = (if x = y then 0 else Suc (pos x ys))"

text \<open>
  The end of \<open>open_and_write\<close>, statement by statement, and the order of the places of
  its stores and releases.
\<close>

definition release_chain :: "nat \<Rightarrow> bool" where
  "release_chain i =
     (let p = open_and_write i; j = (i + 1) mod 5 in
      drop 17 p = [Close Db1, SetFree i, Release i, Say Db1 Freed,
                   Close Db2, SetFree j, Release j, Say Db2 Freed, Release 5] \<and>
      pos (Write Db2 Free) p < pos (SetFree i) p \<and>
      pos (SetFree i) p < pos (Release i) p \<and>
      pos (Release i) p < pos (SetFree j) p \<and>
      pos (SetFree j) p < pos (Release j) p \<and>
      pos (Release j) p < pos (Release 5) p \<and>
      Suc (pos (Release 5) p) = length p)"

text \<open>
  The child that wrote a line, the two messages a child prints while it works, and
  the children that the \<open>switch\<close> gives a file.
\<close>

fun who :: "line \<Rightarrow> nat" where
  "who (Being_used_by n i) = i"
| "who (Free_from_the n i) = i"

fun is_progress :: "msg \<Rightarrow> bool" where
  "is_progress (Writing_to n i f) = True"
| "is_progress (Freed_up_access_to n i f) = True"
| "is_progress m = False"

definition uses :: "nat \<Rightarrow> string \<Rightarrow> bool" where
  "uses j f = (case switch_i j of None \<Rightarrow> False | Some (n, a, b) \<Rightarrow> f = a \<or> f = b)"

definition five_files :: "string list" where
  "five_files = [''faculty.txt'', ''students.txt'', ''statistics.txt'', ''staff.txt'', ''salary.txt'']"

text \<open>
  Environments: one in which every call succeeds and every file can be opened; the
  same with \<open>staff.txt\<close> (the second file of child 2, the first of child 3) denied;
  one in which the third \<open>shmget\<close> fails; one in which the fourth \<open>fork\<close> fails.
\<close>

definition plain_env :: env where
  "plain_env = \<lparr>shmget = (\<lambda>k. int k + 100), fork = (\<lambda>k. int k + 1000), denied = (\<lambda>f. False)\<rparr>"

definition staff_denied :: env where
  "staff_denied = plain_env\<lparr>denied := (\<lambda>f. f = ''staff.txt'')\<rparr>"

definition shmget_fails :: env where
  "shmget_fails = plain_env\<lparr>shmget := (\<lambda>k. if k = 2 then - 1 else int k + 100)\<rparr>"

definition fork_fails :: env where
  "fork_fails = plain_env\<lparr>fork := (\<lambda>k. if k = 3 then - 1 else int k + 1000)\<rparr>"

text \<open>
  The state after a schedule (the state after the start when the schedule asks a
  sleeping or exited child to step), and the schedule that runs the five children one
  after the other, 27 steps each.
\<close>

definition state_after :: "env \<Rightarrow> nat list \<Rightarrow> state" where
  "state_after e sched =
     (case boot e of
        Inl s \<Rightarrow> s
      | Inr s0 \<Rightarrow> (case run e sched s0 of None \<Rightarrow> s0 | Some s \<Rightarrow> s))"

definition sequential :: "nat list" where
  "sequential = concat (map (replicate 27) [0, 1, 2, 3, 4])"

text \<open>
  A state that no run reaches: child 0 has taken the gate and both its locks and is at
  the test of flag 0, and flag 0 is 1 although no child has set it. It is the
  situation the test is written for. \<open>after_stale_flag\<close> runs child 0 for the one step
  of the test, children 1, 2 and 3 to their end, and child 4 as far as it gets.
\<close>

definition stale_flag :: state where
  "stale_flag = (state_after plain_env [0, 0, 0])\<lparr>shm := [1, 0, 0, 0, 0]\<rparr>"

definition after_stale_flag :: "nat list" where
  "after_stale_flag = [0] @ replicate 27 1 @ replicate 27 2 @ replicate 27 3 @ replicate 6 4"

section \<open>Notions used in the proofs\<close>

text \<open>
  \<open>delta ins r\<close> is what one statement adds to the caller's adjustment of semaphore
  \<open>r\<close>; \<open>net i k r\<close> is the adjustment child \<open>i\<close> owes to \<open>r\<close> after its first \<open>k\<close>
  statements; \<open>owed ps r\<close> is the sum of the adjustments of all children.
\<close>

definition delta :: "instr \<Rightarrow> nat \<Rightarrow> int" where
  "delta ins r = (case ins of Acquire q \<Rightarrow> (if q = r then 1 else 0)
                            | Release q \<Rightarrow> (if q = r then - 1 else 0)
                            | _ \<Rightarrow> 0)"

definition net :: "nat \<Rightarrow> nat \<Rightarrow> nat \<Rightarrow> int" where
  "net i k r = sum_list (map (\<lambda>ins. delta ins r) (take k (open_and_write i)))"

definition owed :: "proc list \<Rightarrow> nat \<Rightarrow> int" where
  "owed ps r = sum_list (map (\<lambda>p. semadj p ! r) ps)"

definition initval :: "nat \<Rightarrow> int" where
  "initval r = (if r = 5 then 4 else 1)"

definition wf :: "state \<Rightarrow> bool" where
  "wf s = (length (semval s) = 6 \<and> length (shm s) = 5 \<and> length (procs s) = 5 \<and>
           (\<forall>i<5. length (semadj (procs s ! i)) = 6))"

definition held_at :: "nat \<Rightarrow> nat \<Rightarrow> nat \<Rightarrow> bool" where
  "held_at i k r = ((r = 5 \<and> 1 \<le> k \<and> k \<le> 25) \<or> (r = sem1 i \<and> 2 \<le> k \<and> k \<le> 19) \<or>
                    (r = sem2 i \<and> 3 \<le> k \<and> k \<le> 23))"

definition local_ok :: "nat \<Rightarrow> proc \<Rightarrow> bool" where
  "local_ok i p =
     (case status p of
        None \<Rightarrow> pc p \<le> 26 \<and> (\<forall>r<6. semadj p ! r = net i (pc p) r)
      | Some c \<Rightarrow> pc p \<le> 27 \<and> (\<forall>r<6. semadj p ! r = 0))"

definition sems_ok :: "state \<Rightarrow> bool" where
  "sems_ok s = (\<forall>r<6. 0 \<le> semval s ! r \<and> semval s ! r + owed (procs s) r = initval r)"

definition inv :: "state \<Rightarrow> bool" where
  "inv s = (wf s \<and> (\<forall>i<5. local_ok i (procs s ! i)) \<and> sems_ok s)"

definition shape_ok :: "nat \<Rightarrow> nat \<Rightarrow> bool" where
  "shape_ok i k =
     (case open_and_write i ! k of
        Acquire r \<Rightarrow> (k = 0 \<and> r = 5) \<or> (k = 1 \<and> r = sem1 i) \<or> (k = 2 \<and> r = sem2 i)
      | Check r \<Rightarrow> r < 5 \<and> ((k = 3 \<and> r = sem1 i) \<or> (k = 5 \<and> r = sem2 i))
      | SetBusy r \<Rightarrow> r < 5
      | SetFree r \<Rightarrow> r < 5
      | _ \<Rightarrow> True)"

definition steps_done :: "state \<Rightarrow> nat" where
  "steps_done s = sum_list (map pc (procs s))"

definition fdelta :: "instr \<Rightarrow> nat \<Rightarrow> int" where
  "fdelta ins r = (case ins of SetBusy q \<Rightarrow> (if q = r then 1 else 0)
                             | SetFree q \<Rightarrow> (if q = r then - 1 else 0)
                             | _ \<Rightarrow> 0)"

definition fnet :: "nat \<Rightarrow> nat \<Rightarrow> nat \<Rightarrow> int" where
  "fnet i k r = sum_list (map (\<lambda>ins. fdelta ins r) (take k (open_and_write i)))"

definition flag_at :: "nat \<Rightarrow> nat \<Rightarrow> nat \<Rightarrow> bool" where
  "flag_at i k r = ((r = sem1 i \<and> 5 \<le> k \<and> k \<le> 18) \<or> (r = sem2 i \<and> 7 \<le> k \<and> k \<le> 22))"

definition flags_ok :: "state \<Rightarrow> bool" where
  "flags_ok s = (\<forall>r<5. shm s ! r \<noteq> 0 \<longrightarrow>
                   (\<exists>j<5. status (procs s ! j) = None \<and> 0 < fnet j (pc (procs s ! j)) r))"

definition clean :: "state \<Rightarrow> bool" where
  "clean s = ((\<forall>i<5. \<forall>c. status (procs s ! i) = Some c \<longrightarrow> c = 0 \<and> pc (procs s ! i) = 27) \<and>
              Resources_are_in_use \<notin> set (console s))"

definition inv2 :: "state \<Rightarrow> bool" where
  "inv2 s = (inv s \<and> flags_ok s \<and> clean s)"

definition check_then_set :: "nat \<Rightarrow> nat \<Rightarrow> bool" where
  "check_then_set i k =
     (case open_and_write i ! k of
        Check r \<Rightarrow> Suc k < 26 \<and> open_and_write i ! Suc k = SetBusy r
      | _ \<Rightarrow> True)"

definition odelta :: "instr \<Rightarrow> db \<Rightarrow> int" where
  "odelta ins d = (case ins of Open d' \<Rightarrow> (if d' = d then 1 else 0)
                             | Close d' \<Rightarrow> (if d' = d then - 1 else 0)
                             | _ \<Rightarrow> 0)"

definition onet :: "nat \<Rightarrow> nat \<Rightarrow> db \<Rightarrow> int" where
  "onet i k d = sum_list (map (\<lambda>ins. odelta ins d) (take k (open_and_write i)))"

definition open_at :: "nat \<Rightarrow> db \<Rightarrow> bool" where
  "open_at k d = (case d of Db1 \<Rightarrow> 8 \<le> k \<and> k \<le> 17 | Db2 \<Rightarrow> 9 \<le> k \<and> k \<le> 21)"

definition wdelta :: "env \<Rightarrow> nat \<Rightarrow> instr \<Rightarrow> string \<Rightarrow> line list" where
  "wdelta e i ins f =
     (case ins of
        Write d ph \<Rightarrow>
          (case switch_i i of
             None \<Rightarrow> []
           | Some t \<Rightarrow> if filename d t = f \<and> \<not> denied e f then [mk_line ph (fst t) i] else [])
      | _ \<Rightarrow> [])"

definition written :: "env \<Rightarrow> nat \<Rightarrow> nat \<Rightarrow> string \<Rightarrow> line list" where
  "written e i k f = concat (map (\<lambda>ins. wdelta e i ins f) (take k (open_and_write i)))"

definition streams_ok :: "env \<Rightarrow> state \<Rightarrow> bool" where
  "streams_ok e s =
     (\<forall>i<5. \<forall>d t. switch_i i = Some t \<longrightarrow>
        good d (procs s ! i) = (0 < onet i (pc (procs s ! i)) d \<and> \<not> denied e (filename d t)))"

definition files_ok :: "env \<Rightarrow> state \<Rightarrow> bool" where
  "files_ok e s =
     (\<forall>f. (\<forall>i<5. filter (\<lambda>l. who l = i) (appended s f) = written e i (pc (procs s ! i)) f) \<and>
          (\<forall>l \<in> set (appended s f). who l < 5))"

definition console_ok :: "state \<Rightarrow> bool" where
  "console_ok s = (\<forall>m \<in> set (console s). is_progress m)"

definition inv3 :: "env \<Rightarrow> state \<Rightarrow> bool" where
  "inv3 e s = (inv2 s \<and> streams_ok e s \<and> files_ok e s \<and> console_ok s)"

definition write_open :: "nat \<Rightarrow> nat \<Rightarrow> bool" where
  "write_open i k = (case open_and_write i ! k of Write d ph \<Rightarrow> open_at k d | _ \<Rightarrow> True)"

definition ring_table :: "nat \<Rightarrow> bool" where
  "ring_table i =
     (case switch_i i of
        None \<Rightarrow> False
      | Some (n, f1, f2) \<Rightarrow>
          (case switch_i (sem2 i) of
             None \<Rightarrow> False
           | Some (n', f1', f2') \<Rightarrow>
               f2 = f1' \<and> f1 \<noteq> f2 \<and>
               list_all (\<lambda>j. uses j f2 = (j = i \<or> j = sem2 i)) [0..<5]))"

section \<open>Invariants of the running children\<close>

lemma length_prog [simp]: "length (open_and_write i) = 26"
  by (simp add: open_and_write_def)

lemma upt5: "[0..<5] = [0, 1, 2, 3, 4]"
  by (simp add: upt_rec)

lemma boot_Inr:
  assumes "boot e = Inr s"
  shows "s = \<lparr>semset = True, semval = [1, 1, 1, 1, 1, 4],
              shmIds = map (shmget e) [0, 1, 2, 3, 4], shm = [0, 0, 0, 0, 0],
              procs = [child, child, child, child, child],
              appended = (\<lambda>f. []), console = []\<rparr>"
  using assms
  by (simp add: boot_def upt5 PROC_COUNT_def create_semaphore_set_def start_def init_sem_def
        say_def Let_def numeral_eq_Suc split: if_splits sum.splits)

lemma wf_boot: "boot e = Inr s \<Longrightarrow> wf s"
  by (drule boot_Inr) (simp add: wf_def child_def less_Suc_eq numeral_eq_Suc)

lemma wf_exec:
  assumes "wf s" "i < 5" "exec e i ins s = Some s1"
  shows "wf s1"
  using assms
  by (cases ins)
     (auto simp: wf_def acquire_resource_def release_resource_def upd_proc_def exit_proc_def
        say_def set_good_def nth_list_update
        split: if_splits option.splits db.splits)

lemma wf_step:
  assumes "wf s" "step e i s = Some s'"
  shows "wf s'"
proof -
  from assms have i: "i < 5" by (simp add: step_def wf_def split: if_splits)
  from assms(2) obtain s1 where s': "s' = upd_proc i (\<lambda>p. p\<lparr>pc := Suc (pc p)\<rparr>) s1"
    and s1: "exec e i (open_and_write i ! pc (procs s ! i)) s = Some s1 \<or> s1 = exit_proc 0 i s"
    by (auto simp: step_def Let_def split: if_splits)
  from s1 have "wf s1"
  proof
    assume "exec e i (open_and_write i ! pc (procs s ! i)) s = Some s1"
    with assms(1) i show ?thesis by (rule wf_exec)
  next
    assume "s1 = exit_proc 0 i s"
    with assms(1) i show ?thesis
      by (auto simp: wf_def exit_proc_def upd_proc_def nth_list_update)
  qed
  with i show ?thesis
    by (auto simp: s' wf_def upd_proc_def nth_list_update)
qed

lemma net_enum:
  "list_all (\<lambda>i. list_all (\<lambda>k. list_all (\<lambda>r. net i k r = (if held_at i k r then 1 else 0))
      [0..<6]) [0..<27]) [0..<5]"
  by code_simp

lemma net_held: "i < 5 \<Longrightarrow> k \<le> 26 \<Longrightarrow> r < 6 \<Longrightarrow> net i k r = (if held_at i k r then 1 else 0)"
  using net_enum by (simp add: list_all_iff)

lemma exit_effect:
  assumes "wf s" "i < 5" "s1 = exit_proc c i s"
  shows "procs s1 = (procs s)[i := procs s1 ! i] \<and> pc (procs s1 ! i) = pc (procs s ! i) \<and>
         shm s1 = shm s \<and>
         status (procs s1 ! i) = Some (c mod 256) \<and>
         (\<forall>r<6. semadj (procs s1 ! i) ! r = 0 \<and>
                 semval s1 ! r = semval s ! r + semadj (procs s ! i) ! r)"
  using assms by (auto simp: wf_def exit_proc_def upd_proc_def)

lemma exec_effect:
  assumes "wf s" "i < 5" "exec e i ins s = Some s1"
  shows "procs s1 = (procs s)[i := procs s1 ! i] \<and> pc (procs s1 ! i) = pc (procs s ! i) \<and>
         ((status (procs s1 ! i) = status (procs s ! i) \<and>
           (\<forall>r<6. semadj (procs s1 ! i) ! r = semadj (procs s ! i) ! r + delta ins r \<and>
                   semval s1 ! r = semval s ! r - delta ins r \<and>
                   (0 \<le> semval s ! r \<longrightarrow> 0 \<le> semval s1 ! r))) \<or>
          (status (procs s1 ! i) = Some 255 \<and> (\<exists>q. ins = Check q) \<and>
           (\<forall>r<6. semadj (procs s1 ! i) ! r = 0 \<and>
                   semval s1 ! r = semval s ! r + semadj (procs s ! i) ! r)))"
proof (cases ins)
  case (Check q)
  show ?thesis
  proof (cases "shm s ! q = 0")
    case True
    with assms Check show ?thesis by (auto simp: delta_def split: if_splits)
  next
    case False
    let ?t = "say Resources_are_in_use s"
    have wf: "wf ?t" using assms(1) by (simp add: wf_def say_def)
    from False assms Check have "s1 = exit_proc (- 1) i ?t" by (auto split: if_splits)
    from exit_effect [OF wf assms(2) this] Check show ?thesis
      by (simp add: say_def)
  qed
qed (use assms in \<open>auto simp: wf_def acquire_resource_def release_resource_def upd_proc_def
        say_def set_good_def nth_list_update delta_def
        split: if_splits option.splits db.splits\<close>)

lemma step_effect:
  assumes "wf s" "step e i s = Some s'"
  shows "i < 5 \<and> status (procs s ! i) = None \<and>
         (\<exists>p'. procs s' = (procs s)[i := p'] \<and>
         pc p' = Suc (pc (procs s ! i)) \<and>
         ((pc (procs s ! i) < 26 \<and> status p' = None \<and>
           (\<forall>r<6. semadj p' ! r =
                     semadj (procs s ! i) ! r + delta (open_and_write i ! pc (procs s ! i)) r \<and>
                   semval s' ! r = semval s ! r - delta (open_and_write i ! pc (procs s ! i)) r \<and>
                   (0 \<le> semval s ! r \<longrightarrow> 0 \<le> semval s' ! r))) \<or>
          ((\<exists>c. status p' = Some c) \<and>
           (\<forall>r<6. semadj p' ! r = 0 \<and>
                   semval s' ! r = semval s ! r + semadj (procs s ! i) ! r))))"
proof -
  let ?k = "pc (procs s ! i)"
  from assms have i: "i < 5" and st: "status (procs s ! i) = None"
    by (simp_all add: step_def wf_def split: if_splits)
  from assms(2) obtain s1 where s': "s' = upd_proc i (\<lambda>p. p\<lparr>pc := Suc (pc p)\<rparr>) s1"
    and s1: "(?k < 26 \<and> exec e i (open_and_write i ! ?k) s = Some s1) \<or> s1 = exit_proc 0 i s"
    by (auto simp: step_def Let_def split: if_splits)
  have len: "length (procs s) = 5" using assms(1) by (simp add: wf_def)
  define p1 where "p1 = procs s1 ! i"
  let ?p' = "p1\<lparr>pc := Suc (pc p1)\<rparr>"
  have sv: "semval s' = semval s1" by (simp add: s' upd_proc_def)
  from s1 show ?thesis
  proof
    assume a: "?k < 26 \<and> exec e i (open_and_write i ! ?k) s = Some s1"
    note ef = exec_effect [OF assms(1) i conjunct2 [OF a], folded p1_def]
    from ef have ps: "procs s' = (procs s)[i := ?p']"
      using i len by (simp add: s' upd_proc_def p1_def [symmetric])
    from ef a st show ?thesis
      by (intro conjI i st exI [of _ ?p']) (auto simp: ps sv)
  next
    assume a: "s1 = exit_proc 0 i s"
    note ef = exit_effect [OF assms(1) i a, folded p1_def]
    from ef have ps: "procs s' = (procs s)[i := ?p']"
      using i len by (simp add: s' upd_proc_def p1_def [symmetric])
    from ef st show ?thesis
      by (intro conjI i st exI [of _ ?p']) (auto simp: ps sv)
  qed
qed

lemma owed_update:
  "i < length ps \<Longrightarrow> owed (ps[i := p]) r = owed ps r + semadj p ! r - semadj (ps ! i) ! r"
  by (induction ps arbitrary: i) (auto simp: owed_def split: nat.splits)

lemma net_Suc:
  "k < 26 \<Longrightarrow> net i (Suc k) r = net i k r + delta (open_and_write i ! k) r"
  by (simp add: net_def take_Suc_conv_app_nth)

lemma net_nonneg: "i < 5 \<Longrightarrow> k \<le> 26 \<Longrightarrow> r < 6 \<Longrightarrow> 0 \<le> net i k r"
  by (simp add: net_held)

lemma semadj_nonneg: "local_ok i p \<Longrightarrow> i < 5 \<Longrightarrow> r < 6 \<Longrightarrow> 0 \<le> semadj p ! r"
  by (auto simp: local_ok_def net_nonneg split: option.splits)

lemma inv_boot: "boot e = Inr s \<Longrightarrow> inv s"
  apply (frule wf_boot)
  apply (drule boot_Inr)
  apply (simp add: inv_def sems_ok_def local_ok_def child_def owed_def initval_def net_def
      less_Suc_eq numeral_eq_Suc)
  done

lemma inv_step:
  assumes "inv s" "step e i s = Some s'"
  shows "inv s'"
proof -
  from assms(1) have wf: "wf s" and lo: "\<And>j. j < 5 \<Longrightarrow> local_ok j (procs s ! j)"
    and so: "sems_ok s" by (simp_all add: inv_def)
  have len: "length (procs s) = 5" using wf by (simp add: wf_def)
  let ?p = "procs s ! i" and ?k = "pc (procs s ! i)"
  from step_effect [OF wf assms(2)] obtain p' where i: "i < 5" and st: "status ?p = None"
    and ps: "procs s' = (procs s)[i := p']" and pc': "pc p' = Suc ?k"
    and eff: "(?k < 26 \<and> status p' = None \<and>
           (\<forall>r<6. semadj p' ! r = semadj ?p ! r + delta (open_and_write i ! ?k) r \<and>
                   semval s' ! r = semval s ! r - delta (open_and_write i ! ?k) r \<and>
                   (0 \<le> semval s ! r \<longrightarrow> 0 \<le> semval s' ! r))) \<or>
          ((\<exists>c. status p' = Some c) \<and>
           (\<forall>r<6. semadj p' ! r = 0 \<and> semval s' ! r = semval s ! r + semadj ?p ! r))"
    by blast
  from lo [OF i] st have k: "?k \<le> 26" and adj: "\<And>r. r < 6 \<Longrightarrow> semadj ?p ! r = net i ?k r"
    by (simp_all add: local_ok_def)
  have ow: "\<And>r. owed (procs s') r = owed (procs s) r + semadj p' ! r - semadj ?p ! r"
    using i len by (simp add: ps owed_update)
  have "wf s'" using wf assms(2) by (rule wf_step)
  moreover have "local_ok j (procs s' ! j)" if "j < 5" for j
  proof (cases "j = i")
    case False
    with that lo show ?thesis by (simp add: ps)
  next
    case True
    from eff have "local_ok i p'"
    proof
      assume "?k < 26 \<and> status p' = None \<and>
           (\<forall>r<6. semadj p' ! r = semadj ?p ! r + delta (open_and_write i ! ?k) r \<and>
                   semval s' ! r = semval s ! r - delta (open_and_write i ! ?k) r \<and>
                   (0 \<le> semval s ! r \<longrightarrow> 0 \<le> semval s' ! r))"
      then show ?thesis by (simp add: local_ok_def pc' adj net_Suc)
    next
      assume "(\<exists>c. status p' = Some c) \<and>
           (\<forall>r<6. semadj p' ! r = 0 \<and> semval s' ! r = semval s ! r + semadj ?p ! r)"
      with k show ?thesis by (auto simp: local_ok_def pc')
    qed
    with True i len show ?thesis by (simp add: ps)
  qed
  moreover have "sems_ok s'"
    unfolding sems_ok_def
  proof (intro allI impI)
    fix r :: nat
    assume r: "r < 6"
    from so r have a: "0 \<le> semval s ! r" and b: "semval s ! r + owed (procs s) r = initval r"
      by (simp_all add: sems_ok_def)
    have c: "0 \<le> semadj ?p ! r" using lo [OF i] i r by (rule semadj_nonneg)
    from eff r a b c show "0 \<le> semval s' ! r \<and> semval s' ! r + owed (procs s') r = initval r"
      by (auto simp: ow)
  qed
  ultimately show ?thesis by (simp add: inv_def)
qed

lemma inv_reachable: "reachable e s \<Longrightarrow> inv s"
  by (induction rule: reachable.induct) (auto intro: inv_boot inv_step)

lemma owed_nth: "owed ps r = (\<Sum>k = 0..<length ps. semadj (ps ! k) ! r)"
  unfolding owed_def sum_list_sum_nth by (rule sum.cong) simp_all

lemma owed_two:
  assumes "i < length ps" "j < length ps" "i \<noteq> j"
    and nn: "\<And>k. k < length ps \<Longrightarrow> 0 \<le> semadj (ps ! k) ! r"
  shows "semadj (ps ! i) ! r + semadj (ps ! j) ! r \<le> owed ps r"
proof -
  have "(\<Sum>k\<in>{i, j}. semadj (ps ! k) ! r) \<le> (\<Sum>k = 0..<length ps. semadj (ps ! k) ! r)"
    using assms by (intro sum_mono2) auto
  with assms(3) show ?thesis by (simp add: owed_nth)
qed

lemma owed_pos:
  assumes "0 < owed ps r"
  shows "\<exists>k<length ps. 0 < semadj (ps ! k) ! r"
proof (rule ccontr)
  assume "\<not> ?thesis"
  then have "\<And>k. k \<in> {0..<length ps} \<Longrightarrow> semadj (ps ! k) ! r \<le> 0" by force
  then have "(\<Sum>k = 0..<length ps. semadj (ps ! k) ! r) \<le> 0" by (rule sum_nonpos)
  with assms show False by (simp add: owed_nth)
qed

lemma inv_mutex:
  assumes "inv s" "holds s i r" "holds s j r" "r < 5"
  shows "i = j"
proof (rule ccontr)
  assume ne: "i \<noteq> j"
  from assms(1) have len: "length (procs s) = 5" by (simp add: inv_def wf_def)
  from assms have i: "i < 5" and j: "j < 5" by (simp_all add: holds_def len)
  have r: "r < 6" using assms(4) by simp
  have "semadj (procs s ! i) ! r + semadj (procs s ! j) ! r \<le> owed (procs s) r"
  proof (rule owed_two)
    fix k assume "k < length (procs s)"
    with assms(1) r show "0 \<le> semadj (procs s ! k) ! r"
      by (auto simp: inv_def len intro: semadj_nonneg)
  qed (use i j ne len in simp_all)
  moreover from assms(1) r have "0 \<le> semval s ! r" "semval s ! r + owed (procs s) r = initval r"
    by (simp_all add: inv_def sems_ok_def)
  moreover from assms(2,3) have "0 < semadj (procs s ! i) ! r" "0 < semadj (procs s ! j) ! r"
    by (simp_all add: holds_def)
  ultimately show False using assms(4) by (simp add: initval_def)
qed

lemma inv_wf: "inv s \<Longrightarrow> wf s"
  by (simp add: inv_def)

lemma inv_local: "inv s \<Longrightarrow> i < 5 \<Longrightarrow> local_ok i (procs s ! i)"
  by (simp add: inv_def)

lemma local_running:
  "local_ok i p \<Longrightarrow> status p = None \<Longrightarrow> pc p \<le> 26 \<and> (\<forall>r<6. semadj p ! r = net i (pc p) r)"
  by (simp add: local_ok_def)

lemma local_exited:
  "local_ok i p \<Longrightarrow> status p = Some c \<Longrightarrow> pc p \<le> 27 \<and> (\<forall>r<6. semadj p ! r = 0)"
  by (simp add: local_ok_def)

lemma inv_sems:
  "inv s \<Longrightarrow> r < 6 \<Longrightarrow> 0 \<le> semval s ! r \<and> semval s ! r + owed (procs s) r = initval r"
  by (simp add: inv_def sems_ok_def)

lemma inv_len: "inv s \<Longrightarrow> length (procs s) = 5"
  by (simp add: inv_def wf_def)

lemma switch_i_Some: "i < 5 \<Longrightarrow> \<exists>t. switch_i i = Some t"
  by (auto simp: switch_i_def)

lemma exec_None:
  assumes "wf s" "i < 5" "exec e i ins s = None"
  shows "(\<exists>r. ins = Acquire r \<and> r < 6 \<and> semval s ! r \<le> 0) \<or>
         (\<exists>r. (ins = Check r \<or> ins = SetBusy r \<or> ins = SetFree r) \<and> 5 \<le> r)"
  using assms switch_i_Some [OF assms(2)]
  by (cases ins) (auto simp: wf_def acquire_resource_def split: if_splits)

lemma shape_enum: "list_all (\<lambda>i. list_all (shape_ok i) [0..<26]) [0..<5]"
  by code_simp

lemma shapeI: "i < 5 \<Longrightarrow> k < 26 \<Longrightarrow> shape_ok i k"
  using shape_enum by (simp add: list_all_iff)

lemma stuck:
  assumes "inv s" "i < 5" "status (procs s ! i) = None" "step e i s = None"
  shows "(pc (procs s ! i) = 0 \<and> semval s ! 5 = 0) \<or>
         (pc (procs s ! i) = 1 \<and> semval s ! sem1 i = 0) \<or>
         (pc (procs s ! i) = 2 \<and> semval s ! sem2 i = 0)"
proof -
  let ?k = "pc (procs s ! i)"
  from assms(1) have wf: "wf s" and nn: "\<And>r. r < 6 \<Longrightarrow> 0 \<le> semval s ! r"
    by (simp_all add: inv_def sems_ok_def)
  from local_running [OF inv_local [OF assms(1,2)] assms(3)] have k: "?k \<le> 26" by simp
  from assms(2,3,4) wf have k26: "?k < 26" and ex: "exec e i (open_and_write i ! ?k) s = None"
    by (auto simp: step_def Let_def wf_def split: if_splits)
  from exec_None [OF wf assms(2) ex] shapeI [OF assms(2) k26]
  obtain r where "open_and_write i ! ?k = Acquire r" "r < 6" "semval s ! r \<le> 0"
    by (auto simp: shape_ok_def)
  with shapeI [OF assms(2) k26] nn [of r] show ?thesis
    by (auto simp: shape_ok_def)
qed

lemma holder:
  assumes "inv s" "r < 6" "semval s ! r = 0"
  shows "\<exists>h<5. status (procs s ! h) = None \<and> held_at h (pc (procs s ! h)) r"
proof -
  note len = inv_len [OF assms(1)]
  from inv_sems [OF assms(1,2)] assms(3) have "owed (procs s) r = initval r" by simp
  then have "0 < owed (procs s) r" by (simp add: initval_def)
  then obtain h where h: "h < 5" and pos: "0 < semadj (procs s ! h) ! r"
    using owed_pos len by fastforce
  note lo = inv_local [OF assms(1) h]
  have st: "status (procs s ! h) = None"
  proof (cases "status (procs s ! h)")
    case (Some c)
    from local_exited [OF lo Some] assms(2) pos show ?thesis by simp
  qed simp
  from local_running [OF lo st] assms(2) pos h
  have "held_at h (pc (procs s ! h)) r"
    by (auto simp: net_held split: if_splits)
  with h st show ?thesis by blast
qed

lemma ring_closed:
  assumes "j < 5" "P j" and cl: "\<And>i. i < 5 \<Longrightarrow> P i \<Longrightarrow> P (sem2 i)"
  shows "\<forall>i<5. P i"
proof -
  have s2: "sem2 0 = 1" "sem2 1 = 2" "sem2 2 = 3" "sem2 3 = 4" "sem2 4 = 0"
    by (simp_all add: sem2_def)
  have c: "P 0 \<Longrightarrow> P 1" "P 1 \<Longrightarrow> P 2" "P 2 \<Longrightarrow> P 3" "P 3 \<Longrightarrow> P 4" "P 4 \<Longrightarrow> P 0"
    using cl [of 0] cl [of 1] cl [of 2] cl [of 3] cl [of 4] unfolding s2 by simp_all
  have "j = 0 \<or> j = 1 \<or> j = 2 \<or> j = 3 \<or> j = 4" using assms(1) by arith
  with assms(2) c have "P 0 \<and> P 1 \<and> P 2 \<and> P 3 \<and> P 4" by blast
  moreover have "i = 0 \<or> i = 1 \<or> i = 2 \<or> i = 3 \<or> i = 4" if "i < 5" for i :: nat
    using that by arith
  ultimately show ?thesis by blast
qed

lemma no_deadlock:
  assumes "inv s" and all: "\<And>i. i < 5 \<Longrightarrow> step e i s = None"
  shows "\<forall>i<5. status (procs s ! i) \<noteq> None"
proof (rule ccontr)
  assume "\<not> ?thesis"
  then obtain j where j: "j < 5" and run: "status (procs s ! j) = None" by blast
  let ?k = "\<lambda>i. pc (procs s ! i)"
  have st: "(?k i = 0 \<and> semval s ! 5 = 0) \<or> (?k i = 1 \<and> semval s ! sem1 i = 0) \<or>
            (?k i = 2 \<and> semval s ! sem2 i = 0)"
    if "i < 5" "status (procs s ! i) = None" for i
    using assms(1) that all [OF that(1)] by (rule stuck)
  have low: "?k h = 2 \<and> r = h" if "h < 5" "status (procs s ! h) = None" "held_at h (?k h) r" "r < 5" for h r
    using st [OF that(1,2)] that(3,4) by (auto simp: held_at_def sem1_def)
  have no1: "?k i \<noteq> 1" if i: "i < 5" "status (procs s ! i) = None" for i
  proof
    assume k1: "?k i = 1"
    with st [OF i] have z: "semval s ! sem1 i = 0" by simp
    from i(1) have r5: "sem1 i < 5" and r6: "sem1 i < 6" by (simp_all add: sem1_def)
    from holder [OF assms(1) r6 z] obtain h where
      h: "h < 5" "status (procs s ! h) = None" "held_at h (?k h) (sem1 i)"
      by blast
    from low [OF h r5] k1 show False by (simp add: sem1_def)
  qed
  have next2: "status (procs s ! sem2 i) = None \<and> ?k (sem2 i) = 2"
    if i: "i < 5" and "status (procs s ! i) = None \<and> ?k i = 2" for i
  proof -
    from i have r5: "sem2 i < 5" and r6: "sem2 i < 6" by (simp_all add: sem2_def)
    from that st [of i] have z: "semval s ! sem2 i = 0" by simp
    from holder [OF assms(1) r6 z] obtain h where
      h: "h < 5" "status (procs s ! h) = None" "held_at h (?k h) (sem2 i)"
      by blast
    from low [OF h r5] h(2) show ?thesis by simp
  qed
  have no2: "?k i \<noteq> 2" if i: "i < 5" "status (procs s ! i) = None" for i
  proof
    assume k2: "?k i = 2"
    have allat: "\<forall>h<5. status (procs s ! h) = None \<and> ?k h = 2"
    proof (rule ring_closed [where j = i])
      show "i < 5" by fact
      show "status (procs s ! i) = None \<and> ?k i = 2" using i(2) k2 by simp
      show "status (procs s ! sem2 h) = None \<and> ?k (sem2 h) = 2"
        if "h < 5" "status (procs s ! h) = None \<and> ?k h = 2" for h
        using that by (rule next2)
    qed
    have one: "semadj (procs s ! h) ! 5 = 1" if h: "h < 5" for h
    proof -
      from allat h have a: "status (procs s ! h) = None" and b: "?k h = 2" by simp_all
      from local_running [OF inv_local [OF assms(1) h] a]
      have "semadj (procs s ! h) ! 5 = net h 2 5" by (simp add: b)
      also have "\<dots> = 1" using h by (simp add: net_held held_at_def)
      finally show ?thesis .
    qed
    have "owed (procs s) 5 = (\<Sum>h = 0..<5. semadj (procs s ! h) ! 5)"
      by (simp add: owed_nth inv_len [OF assms(1)])
    also have "\<dots> = (\<Sum>h = 0..<5::nat. 1)"
      by (rule sum.cong) (simp_all add: one)
    also have "\<dots> = 5" by simp
    finally have "owed (procs s) 5 = 5" .
    with inv_sems [OF assms(1), of 5] show False by (auto simp: initval_def)
  qed
  from st [OF j run] no1 [OF j run] no2 [OF j run] have z: "semval s ! 5 = 0" by simp
  from holder [OF assms(1) _ z] obtain h where
    h: "h < 5" "status (procs s ! h) = None" "held_at h (?k h) 5" by auto
  from st [OF h(1,2)] no1 [OF h(1,2)] no2 [OF h(1,2)] have "?k h = 0" by simp
  with h(3) show False by (simp add: held_at_def sem1_def sem2_def)
qed

lemma run_reachable: "reachable e s \<Longrightarrow> run e sched s = Some s' \<Longrightarrow> reachable e s'"
  by (induction sched arbitrary: s) (auto split: option.splits intro: reach_step)

lemma reachable_state_after:
  assumes "boot e = Inr s0"
  shows "reachable e (state_after e sched)"
proof (cases "run e sched s0")
  case None
  with assms show ?thesis by (simp add: state_after_def reach_boot)
next
  case (Some s)
  from reach_boot [OF assms] Some have "reachable e s" by (rule run_reachable)
  with assms Some show ?thesis by (simp add: state_after_def)
qed

lemma boot_plain: "\<exists>s0. boot plain_env = Inr s0"
  by (simp add: boot_def upt5 PROC_COUNT_def plain_env_def create_semaphore_set_def start_def
      init_sem_def Let_def)

lemma reachable_plain: "reachable plain_env (state_after plain_env sched)"
  using boot_plain reachable_state_after by blast

lemma pc_update_sum:
  "i < length ps \<Longrightarrow> sum_list (map pc (ps[i := p])) + pc (ps ! i) = sum_list (map pc ps) + pc p"
  by (induction ps arbitrary: i) (auto split: nat.splits)

lemma step_progress:
  assumes "wf s" "step e i s = Some s'"
  shows "steps_done s' = Suc (steps_done s)"
proof -
  from step_effect [OF assms] obtain p' where i: "i < 5"
    and ps: "procs s' = (procs s)[i := p']" and pc': "pc p' = Suc (pc (procs s ! i))"
    by blast
  from assms(1) i have "i < length (procs s)" by (simp add: wf_def)
  from pc_update_sum [OF this, of p'] show ?thesis by (simp add: steps_done_def ps pc')
qed

lemma pc_le_27: "inv s \<Longrightarrow> i < 5 \<Longrightarrow> pc (procs s ! i) \<le> 27"
  by (drule (1) inv_local) (auto simp: local_ok_def split: option.splits)

lemma steps_bound:
  assumes "inv s"
  shows "steps_done s \<le> 135"
proof -
  have "steps_done s = (\<Sum>i = 0..<5. pc (procs s ! i))"
    unfolding steps_done_def sum_list_sum_nth
    by (rule sum.cong) (simp_all add: inv_len [OF assms])
  also have "\<dots> \<le> (\<Sum>i = 0..<5::nat. 27)"
    by (rule sum_mono) (simp add: pc_le_27 [OF assms])
  finally show ?thesis by simp
qed

lemma run_inv:
  "inv s \<Longrightarrow> run e sched s = Some s' \<Longrightarrow> inv s' \<and> steps_done s' = steps_done s + length sched"
proof (induction sched arbitrary: s)
  case Nil
  then show ?case by simp
next
  case (Cons i sched)
  from Cons.prems(2) obtain s1 where s1: "step e i s = Some s1" and r: "run e sched s1 = Some s'"
    by (auto split: option.splits)
  from Cons.prems(1) s1 have "inv s1" by (rule inv_step)
  from Cons.IH [OF this r] step_progress [OF inv_wf [OF Cons.prems(1)] s1]
  show ?case by simp
qed

lemma all_exited_iff: "inv s \<Longrightarrow> all_exited s \<longleftrightarrow> (\<forall>i<5. status (procs s ! i) \<noteq> None)"
  by (simp add: all_exited_def list_all_length inv_len)

lemma can_step:
  assumes "inv s" "\<not> all_exited s"
  shows "\<exists>i<5. \<exists>s1. step e i s = Some s1"
proof (rule ccontr)
  assume "\<not> ?thesis"
  then have "\<And>i. i < 5 \<Longrightarrow> step e i s = None" by (metis option.exhaust)
  from no_deadlock [OF assms(1) this] assms show False by (simp add: all_exited_iff)
qed

lemma completion:
  "inv s \<Longrightarrow> \<exists>rest s'. run e rest s = Some s' \<and> all_exited s'"
proof (induction s rule: measure_induct_rule [where f = "\<lambda>s. 135 - steps_done s"])
  case (less s)
  show ?case
  proof (cases "all_exited s")
    case True
    then have "run e [] s = Some s \<and> all_exited s" by simp
    then show ?thesis by blast
  next
    case False
    with can_step [OF less.prems, of e]
    obtain i s1 where i: "i < 5" and s1: "step e i s = Some s1" by blast
    from less.prems s1 have inv1: "inv s1" by (rule inv_step)
    from step_progress [OF inv_wf [OF less.prems] s1] steps_bound [OF inv1]
    have "135 - steps_done s1 < 135 - steps_done s" by simp
    from less.IH [OF this inv1] obtain rest s' where "run e rest s1 = Some s'" "all_exited s'"
      by blast
    with s1 have "run e (i # rest) s = Some s' \<and> all_exited s'" by simp
    then show ?thesis by blast
  qed
qed

lemma run_append:
  "run e (xs @ ys) s = (case run e xs s of None \<Rightarrow> None | Some s1 \<Rightarrow> run e ys s1)"
  by (induction xs arbitrary: s) (auto split: option.splits)

lemma semadj_01:
  assumes "inv s" "i < 5" "r < 6"
  shows "semadj (procs s ! i) ! r = (if holds s i r then 1 else 0)"
proof -
  note lo = inv_local [OF assms(1,2)]
  from assms(1,2) have len: "length (semadj (procs s ! i)) = 6" by (simp add: inv_def wf_def)
  have "semadj (procs s ! i) ! r = 0 \<or> semadj (procs s ! i) ! r = 1"
  proof (cases "status (procs s ! i)")
    case None
    from local_running [OF lo None] assms(2,3) show ?thesis by (simp add: net_held)
  next
    case (Some c)
    from local_exited [OF lo Some] assms(3) show ?thesis by simp
  qed
  with assms(2,3) len inv_len [OF assms(1)] show ?thesis by (auto simp: holds_def)
qed

lemma count_filter_upt:
  "int (length (filter P [0..<n])) = (\<Sum>i = 0..<n. if P i then 1 else 0)"
  by (induction n) simp_all

lemma owed_count:
  assumes "inv s" "r < 6"
  shows "owed (procs s) r = int (length (filter (\<lambda>i. holds s i r) [0..<5]))"
proof -
  have "owed (procs s) r = (\<Sum>i = 0..<5. semadj (procs s ! i) ! r)"
    by (simp add: owed_nth inv_len [OF assms(1)])
  also have "\<dots> = (\<Sum>i = 0..<5. if holds s i r then 1 else 0)"
    by (rule sum.cong) (simp_all add: semadj_01 [OF assms(1) _ assms(2)])
  finally show ?thesis by (simp only: count_filter_upt)
qed

lemma holds_pc:
  assumes "inv s" "i < 5" "r < 6" "status (procs s ! i) = None"
  shows "holds s i r \<longleftrightarrow> held_at i (pc (procs s ! i)) r"
proof -
  from local_running [OF inv_local [OF assms(1,2)] assms(4)] assms(2,3)
  have "semadj (procs s ! i) ! r = (if held_at i (pc (procs s ! i)) r then 1 else 0)"
    by (simp add: net_held)
  with semadj_01 [OF assms(1,2,3)] show ?thesis by (simp split: if_splits)
qed

lemma fnet_enum:
  "list_all (\<lambda>i. list_all (\<lambda>k. list_all (\<lambda>r. fnet i k r = (if flag_at i k r then 1 else 0))
      [0..<6]) [0..<27]) [0..<5]"
  by code_simp

lemma fnet_flag: "i < 5 \<Longrightarrow> k \<le> 26 \<Longrightarrow> r < 6 \<Longrightarrow> fnet i k r = (if flag_at i k r then 1 else 0)"
  using fnet_enum by (simp add: list_all_iff)

lemma fnet_Suc:
  "k < 26 \<Longrightarrow> fnet i (Suc k) r = fnet i k r + fdelta (open_and_write i ! k) r"
  by (simp add: fnet_def take_Suc_conv_app_nth)

lemma flag_held: "flag_at i k r \<Longrightarrow> held_at i k r"
  by (auto simp: flag_at_def held_at_def)

lemma exec_effect2:
  assumes "wf s" "i < 5" "exec e i ins s = Some s1"
  shows "((\<exists>q. ins = Check q \<and> q < 5 \<and> shm s ! q \<noteq> 0) \<and>
          status (procs s1 ! i) = Some 255 \<and> shm s1 = shm s \<and>
          console s1 = console s @ [Resources_are_in_use]) \<or>
         ((\<forall>q. ins = Check q \<longrightarrow> q < 5 \<and> shm s ! q = 0) \<and>
          status (procs s1 ! i) = status (procs s ! i) \<and>
          (Resources_are_in_use \<in> set (console s1) \<longrightarrow> Resources_are_in_use \<in> set (console s)) \<and>
          (\<forall>r<5. shm s1 ! r = (if fdelta ins r = 1 then 1 else if fdelta ins r = - 1 then 0
                                 else shm s ! r)))"
  using assms
  by (cases ins)
     (auto simp: wf_def acquire_resource_def release_resource_def upd_proc_def exit_proc_def
        say_def set_good_def nth_list_update fdelta_def mk_msg_def
        split: if_splits option.splits db.splits notice.splits)

lemma step_effect2:
  assumes "wf s" "step e i s = Some s'"
  shows "(pc (procs s ! i) < 26 \<and>
          (((\<exists>q. open_and_write i ! pc (procs s ! i) = Check q \<and> q < 5 \<and> shm s ! q \<noteq> 0) \<and>
            status (procs s' ! i) = Some 255 \<and> shm s' = shm s \<and>
            console s' = console s @ [Resources_are_in_use]) \<or>
           ((\<forall>q. open_and_write i ! pc (procs s ! i) = Check q \<longrightarrow> q < 5 \<and> shm s ! q = 0) \<and>
            status (procs s' ! i) = None \<and>
            (Resources_are_in_use \<in> set (console s') \<longrightarrow> Resources_are_in_use \<in> set (console s)) \<and>
            (\<forall>r<5. shm s' ! r =
               (if fdelta (open_and_write i ! pc (procs s ! i)) r = 1 then 1
                else if fdelta (open_and_write i ! pc (procs s ! i)) r = - 1 then 0
                else shm s ! r))))) \<or>
         (26 \<le> pc (procs s ! i) \<and> status (procs s' ! i) = Some 0 \<and> shm s' = shm s \<and>
          console s' = console s)"
proof -
  let ?k = "pc (procs s ! i)"
  from assms have i: "i < 5" and st: "status (procs s ! i) = None"
    by (simp_all add: step_def wf_def split: if_splits)
  from assms(2) obtain s1 where s': "s' = upd_proc i (\<lambda>p. p\<lparr>pc := Suc (pc p)\<rparr>) s1"
    and s1: "(?k < 26 \<and> exec e i (open_and_write i ! ?k) s = Some s1) \<or>
             (26 \<le> ?k \<and> s1 = exit_proc 0 i s)"
    by (auto simp: step_def Let_def split: if_splits)
  from s1 show ?thesis
  proof
    assume a: "?k < 26 \<and> exec e i (open_and_write i ! ?k) s = Some s1"
    then have "wf s1" using assms(1) i wf_exec by blast
    with i have same: "status (procs s' ! i) = status (procs s1 ! i)" "shm s' = shm s1"
      "console s' = console s1"
      by (simp_all add: s' upd_proc_def wf_def)
    from exec_effect2 [OF assms(1) i conjunct2 [OF a]] a st show ?thesis
      unfolding same by simp
  next
    assume a: "26 \<le> ?k \<and> s1 = exit_proc 0 i s"
    with assms(1) i show ?thesis
      by (simp add: s' upd_proc_def exit_proc_def wf_def)
  qed
qed

lemma flagged_holds:
  assumes "inv s" "j < 5" "r < 5" "status (procs s ! j) = None" "0 < fnet j (pc (procs s ! j)) r"
  shows "holds s j r \<and> flag_at j (pc (procs s ! j)) r"
proof -
  from local_running [OF inv_local [OF assms(1,2)] assms(4)] have k: "pc (procs s ! j) \<le> 26"
    by simp
  from assms(3) have r6: "r < 6" by simp
  from assms(5) fnet_flag [OF assms(2) k r6] have f: "flag_at j (pc (procs s ! j)) r"
    by (simp split: if_splits)
  with holds_pc [OF assms(1,2) r6 assms(4)] flag_held show ?thesis by blast
qed

lemma check_passes:
  assumes "inv s" "flags_ok s" "i < 5" "status (procs s ! i) = None" "pc (procs s ! i) < 26"
    "open_and_write i ! pc (procs s ! i) = Check q"
  shows "q < 5 \<and> shm s ! q = 0"
proof -
  let ?k = "pc (procs s ! i)"
  from shapeI [OF assms(3,5)] assms(6)
  have q: "q < 5" and pos: "(?k = 3 \<and> q = sem1 i) \<or> (?k = 5 \<and> q = sem2 i)"
    by (simp_all add: shape_ok_def)
  from q have q6: "q < 6" by simp
  from pos have "held_at i ?k q" by (auto simp: held_at_def)
  with holds_pc [OF assms(1,3) q6 assms(4)] have hi: "holds s i q" by simp
  from pos assms(3) have nf: "\<not> flag_at i ?k q" by (auto simp: flag_at_def sem1_def sem2_def)
  have "shm s ! q = 0"
  proof (rule ccontr)
    assume "shm s ! q \<noteq> 0"
    with assms(2) q obtain j where j: "j < 5" "status (procs s ! j) = None"
      "0 < fnet j (pc (procs s ! j)) q"
      by (auto simp: flags_ok_def)
    from flagged_holds [OF assms(1) j(1) q j(2,3)]
    have hj: "holds s j q" and fj: "flag_at j (pc (procs s ! j)) q" by simp_all
    from inv_mutex [OF assms(1) hi hj q] fj nf show False by simp
  qed
  with q show ?thesis by simp
qed

lemma inv2_boot: "boot e = Inr s \<Longrightarrow> inv2 s"
  apply (frule inv_boot)
  apply (drule boot_Inr)
  apply (simp add: inv2_def flags_ok_def clean_def child_def less_Suc_eq numeral_eq_Suc)
  done

lemma inv2_step:
  assumes "inv2 s" "step e i s = Some s'"
  shows "inv2 s'"
proof -
  from assms(1) have inv: "inv s" and fl: "flags_ok s" and cl: "clean s" by (simp_all add: inv2_def)
  note wf = inv_wf [OF inv] and len = inv_len [OF inv]
  let ?k = "pc (procs s ! i)" and ?ins = "open_and_write i ! pc (procs s ! i)"
  from step_effect [OF wf assms(2)] obtain p' where i: "i < 5" and st: "status (procs s ! i) = None"
    and ps: "procs s' = (procs s)[i := p']" and pc': "pc p' = Suc ?k"
    by blast
  from i len have pi: "procs s' ! i = p'" and po: "\<And>j. j \<noteq> i \<Longrightarrow> procs s' ! j = procs s ! j"
    by (simp_all add: ps)
  from local_running [OF inv_local [OF inv i] st] have k: "?k \<le> 26" by simp
  have inv': "inv s'" using inv assms(2) by (rule inv_step)
  have fn0: "fnet i 26 r = 0" if "r < 5" for r
    using fnet_flag [OF i, of 26 r] that by (simp add: flag_at_def)
  from step_effect2 [OF wf assms(2)]
  consider
    (fail) q where "?k < 26" "?ins = Check q" "q < 5" "shm s ! q \<noteq> 0"
  | (normal) "?k < 26" "status p' = None"
      "Resources_are_in_use \<in> set (console s') \<longrightarrow> Resources_are_in_use \<in> set (console s)"
      "\<forall>r<5. shm s' ! r = (if fdelta ?ins r = 1 then 1 else if fdelta ?ins r = - 1 then 0
                             else shm s ! r)"
  | (exit) "?k = 26" "status p' = Some 0" "shm s' = shm s" "console s' = console s"
    using k unfolding pi by fastforce
  then show ?thesis
  proof cases
    case fail
    from check_passes [OF inv fl i st fail(1,2)] fail(4) show ?thesis by simp
  next
    case normal
    have "clean s'"
      unfolding clean_def
    proof (intro conjI allI impI)
      fix j c assume j: "j < 5" and c: "status (procs s' ! j) = Some c"
      with normal(2) pi have "j \<noteq> i" by auto
      with po j c cl show "c = 0" "pc (procs s' ! j) = 27" by (auto simp: clean_def)
    next
      from normal(3) cl show "Resources_are_in_use \<notin> set (console s')" by (auto simp: clean_def)
    qed
    moreover have "flags_ok s'"
      unfolding flags_ok_def
    proof (intro allI impI)
      fix r :: nat assume r: "r < 5" and nz: "shm s' ! r \<noteq> 0"
      from r have r6: "r < 6" by simp
      have nn: "0 \<le> fnet i ?k r" using fnet_flag [OF i k r6] by simp
      from normal(4) r nz have d: "fdelta ?ins r \<noteq> - 1"
        and old: "fdelta ?ins r \<noteq> 1 \<Longrightarrow> shm s ! r \<noteq> 0"
        by (auto split: if_splits)
      have dv: "fdelta ?ins r = 1 \<or> fdelta ?ins r = 0"
        using d by (auto simp: fdelta_def split: instr.splits if_splits)
      have new: "fnet i (Suc ?k) r = fnet i ?k r + fdelta ?ins r"
        using normal(1) by (rule fnet_Suc)
      show "\<exists>j<5. status (procs s' ! j) = None \<and> 0 < fnet j (pc (procs s' ! j)) r"
      proof (cases "fdelta ?ins r = 1")
        case True
        with new nn have "0 < fnet i (pc p') r" by (simp add: pc')
        with i normal(2) pi show ?thesis by auto
      next
        case False
        from old [OF False] fl r obtain j where j: "j < 5" "status (procs s ! j) = None"
          "0 < fnet j (pc (procs s ! j)) r"
          by (auto simp: flags_ok_def)
        show ?thesis
        proof (cases "j = i")
          case True
          with j(3) new dv False have "0 < fnet i (pc p') r" by (simp add: pc')
          with i normal(2) pi show ?thesis by auto
        next
          case False
          with j po show ?thesis by auto
        qed
      qed
    qed
    ultimately show ?thesis using inv' by (simp add: inv2_def)
  next
    case exit
    have "clean s'"
      unfolding clean_def
    proof (intro conjI allI impI)
      fix j c assume j: "j < 5" and c: "status (procs s' ! j) = Some c"
      show "c = 0" "pc (procs s' ! j) = 27"
        using j c cl po [of j] pi exit(1,2) pc' by (cases "j = i"; auto simp: clean_def)+
    next
      from exit(4) cl show "Resources_are_in_use \<notin> set (console s')" by (simp add: clean_def)
    qed
    moreover have "flags_ok s'"
      unfolding flags_ok_def
    proof (intro allI impI)
      fix r :: nat assume r: "r < 5" and nz: "shm s' ! r \<noteq> 0"
      with exit(3) fl obtain j where j: "j < 5" "status (procs s ! j) = None"
        "0 < fnet j (pc (procs s ! j)) r"
        by (auto simp: flags_ok_def)
      from j(3) fn0 [OF r] exit(1) have "j \<noteq> i" by auto
      with j po show "\<exists>j<5. status (procs s' ! j) = None \<and> 0 < fnet j (pc (procs s' ! j)) r"
        by auto
    qed
    ultimately show ?thesis using inv' by (simp add: inv2_def)
  qed
qed

lemma inv2_reachable: "reachable e s \<Longrightarrow> inv2 s"
  by (induction rule: reachable.induct) (auto intro: inv2_boot inv2_step)

lemma sem2_mod: "i < 5 \<Longrightarrow> sem2 i = (i + 1) mod 5"
  by (auto simp: sem2_def)

lemma release_chain_enum: "list_all release_chain [0..<5]"
  by code_simp

lemma busy_flag_held:
  assumes "reachable e s" "r < 5" "shm s ! r \<noteq> 0"
  shows "\<exists>j<5. holds s j r"
proof -
  from assms(1) have "inv2 s" by (rule inv2_reachable)
  then have inv: "inv s" and fl: "flags_ok s" by (simp_all add: inv2_def)
  from fl assms(2,3) obtain j where j: "j < 5" "status (procs s ! j) = None"
    "0 < fnet j (pc (procs s ! j)) r"
    by (auto simp: flags_ok_def)
  from flagged_holds [OF inv j(1) assms(2) j(2,3)] j(1) show ?thesis by blast
qed

lemma check_then_set_enum: "list_all (\<lambda>i. list_all (check_then_set i) [0..<26]) [0..<5]"
  by code_simp

lemma check_then_setI: "i < 5 \<Longrightarrow> k < 26 \<Longrightarrow> check_then_set i k"
  using check_then_set_enum by (simp add: list_all_iff)

lemma check_fails:
  assumes "i < length (procs s)" "status (procs s ! i) = None" "pc (procs s ! i) < 26"
    "open_and_write i ! pc (procs s ! i) = Check r" "r < length (shm s)" "shm s ! r \<noteq> 0"
  shows "\<exists>s'. step e i s = Some s' \<and> status (procs s' ! i) = Some 255 \<and>
           console s' = console s @ [Resources_are_in_use] \<and> shm s' = shm s \<and>
           (\<forall>j<length (procs s). j \<noteq> i \<longrightarrow> procs s' ! j = procs s ! j)"
  using assms by (simp add: step_def exit_proc_def upd_proc_def say_def)

lemma check_succeeds:
  assumes "i < 5" "i < length (procs s)" "status (procs s ! i) = None" "pc (procs s ! i) < 26"
    "open_and_write i ! pc (procs s ! i) = Check r" "r < length (shm s)" "shm s ! r = 0"
  shows "\<exists>s' s''. step e i s = Some s' \<and> status (procs s' ! i) = None \<and> shm s' = shm s \<and>
           console s' = console s \<and> step e i s' = Some s'' \<and> shm s'' = (shm s)[r := 1] \<and>
           status (procs s'' ! i) = None"
proof -
  let ?k = "pc (procs s ! i)"
  let ?s' = "upd_proc i (\<lambda>p. p\<lparr>pc := Suc (pc p)\<rparr>) s"
  let ?s'' = "upd_proc i (\<lambda>p. p\<lparr>pc := Suc (pc p)\<rparr>) (?s'\<lparr>shm := (shm s)[r := 1]\<rparr>)"
  from check_then_setI [OF assms(1,4)] assms(5)
  have nxt: "Suc ?k < 26" "open_and_write i ! Suc ?k = SetBusy r"
    by (simp_all add: check_then_set_def)
  from assms have 1: "step e i s = Some ?s'" by (simp add: step_def)
  from assms nxt have 2: "step e i ?s' = Some ?s''" by (simp add: step_def upd_proc_def)
  from assms have 3: "status (procs ?s' ! i) = None" "shm ?s' = shm s" "console ?s' = console s"
    "shm ?s'' = (shm s)[r := 1]" "status (procs ?s'' ! i) = None"
    by (simp_all add: upd_proc_def)
  from 1 2 3 show ?thesis by blast
qed

lemma never_fails:
  assumes "reachable e s"
  shows "Resources_are_in_use \<notin> set (console s) \<and>
         (\<forall>j<5. status (procs s ! j) = None \<or> status (procs s ! j) = Some 0)"
proof -
  from assms have "inv2 s" by (rule inv2_reachable)
  then have cl: "clean s" by (simp add: inv2_def)
  have "status (procs s ! j) = None \<or> status (procs s ! j) = Some 0" if "j < 5" for j
    using cl that by (cases "status (procs s ! j)") (auto simp: clean_def)
  with cl show ?thesis by (simp add: clean_def)
qed

lemma check_reachable:
  assumes "reachable e s" "i < 5" "status (procs s ! i) = None" "pc (procs s ! i) < 26"
    "open_and_write i ! pc (procs s ! i) = Check r"
  shows "shm s ! r = 0"
proof -
  from assms(1) have "inv2 s" by (rule inv2_reachable)
  then have "inv s" "flags_ok s" by (simp_all add: inv2_def)
  from check_passes [OF this assms(2-5)] show ?thesis by simp
qed

lemma onet_enum:
  "list_all (\<lambda>i. list_all (\<lambda>k. list_all (\<lambda>d. onet i k d = (if open_at k d then 1 else 0))
      [Db1, Db2]) [0..<28]) [0..<5]"
  by code_simp

lemma onet_open: "i < 5 \<Longrightarrow> k \<le> 27 \<Longrightarrow> onet i k d = (if open_at k d then 1 else 0)"
  using onet_enum by (cases d) (simp_all add: list_all_iff)

lemma onet_Suc:
  "k < 26 \<Longrightarrow> onet i (Suc k) d = onet i k d + odelta (open_and_write i ! k) d"
  by (simp add: onet_def take_Suc_conv_app_nth)

lemma written_Suc:
  "k < 26 \<Longrightarrow> written e i (Suc k) f = written e i k f @ wdelta e i (open_and_write i ! k) f"
  by (simp add: written_def take_Suc_conv_app_nth)

lemma past_end [simp]: "onet i 27 d = onet i 26 d" "written e i 27 f = written e i 26 f"
  by (simp_all add: onet_def written_def)

lemma write_open_enum: "list_all (\<lambda>i. list_all (write_open i) [0..<26]) [0..<5]"
  by code_simp

lemma write_openI: "i < 5 \<Longrightarrow> k < 26 \<Longrightarrow> write_open i k"
  using write_open_enum by (simp add: list_all_iff)

lemma who_mk_line [simp]: "who (mk_line ph n i) = i"
  by (cases ph) (simp_all add: mk_line_def)

lemma is_progress_mk_msg [simp]: "is_progress (mk_msg n sys i f)"
  by (cases n) (simp_all add: mk_msg_def)

lemma good_set_good [simp]: "good d (set_good d' b p) = (if d = d' then b else good d p)"
  by (cases d; cases d') (simp_all add: good_def set_good_def)

lemma good_upd [simp]:
  "good d (p\<lparr>pc := k\<rparr>) = good d p" "good d (p\<lparr>semadj := a\<rparr>) = good d p"
  "good d (p\<lparr>status := c\<rparr>) = good d p"
  by (cases d; simp add: good_def)+

lemma exec_effect3:
  assumes "wf s" "i < 5" "exec e i ins s = Some s1" "switch_i i = Some t"
    "status (procs s1 ! i) = None"
  shows "(\<forall>f. appended s1 f = appended s f @
            (case ins of Write d ph \<Rightarrow>
               if good d (procs s ! i) \<and> filename d t = f then [mk_line ph (fst t) i] else []
             | _ \<Rightarrow> [])) \<and>
         (\<forall>d. good d (procs s1 ! i) =
            (case ins of
               Open d' \<Rightarrow> if d = d' then \<not> denied e (filename d t) else good d (procs s ! i)
             | Close d' \<Rightarrow> if d = d' then False else good d (procs s ! i)
             | _ \<Rightarrow> good d (procs s ! i))) \<and>
         (\<forall>m \<in> set (console s1). m \<in> set (console s) \<or> is_progress m)"
  using assms
  by (cases ins)
     (auto simp: wf_def acquire_resource_def release_resource_def upd_proc_def exit_proc_def
        say_def split: if_splits)

lemma step_effect3:
  assumes "inv2 s" "step e i s = Some s'" "switch_i i = Some t"
  shows "(pc (procs s ! i) < 26 \<and>
          (\<forall>f. appended s' f = appended s f @
            (case open_and_write i ! pc (procs s ! i) of Write d ph \<Rightarrow>
               if good d (procs s ! i) \<and> filename d t = f then [mk_line ph (fst t) i] else []
             | _ \<Rightarrow> [])) \<and>
          (\<forall>d. good d (procs s' ! i) =
            (case open_and_write i ! pc (procs s ! i) of
               Open d' \<Rightarrow> if d = d' then \<not> denied e (filename d t) else good d (procs s ! i)
             | Close d' \<Rightarrow> if d = d' then False else good d (procs s ! i)
             | _ \<Rightarrow> good d (procs s ! i))) \<and>
          (\<forall>m \<in> set (console s'). m \<in> set (console s) \<or> is_progress m)) \<or>
         (pc (procs s ! i) = 26 \<and> appended s' = appended s \<and> console s' = console s \<and>
          (\<forall>d. good d (procs s' ! i) = good d (procs s ! i)))"
proof -
  let ?k = "pc (procs s ! i)"
  from assms(1) have inv: "inv s" and fl: "flags_ok s" by (simp_all add: inv2_def)
  note wf = inv_wf [OF inv]
  from assms(2) wf have i: "i < 5" and st: "status (procs s ! i) = None"
    by (simp_all add: step_def wf_def split: if_splits)
  from local_running [OF inv_local [OF inv i] st] have k: "?k \<le> 26" by simp
  from assms(2) obtain s1 where s': "s' = upd_proc i (\<lambda>p. p\<lparr>pc := Suc (pc p)\<rparr>) s1"
    and s1: "(?k < 26 \<and> exec e i (open_and_write i ! ?k) s = Some s1) \<or>
             (26 \<le> ?k \<and> s1 = exit_proc 0 i s)"
    by (auto simp: step_def Let_def split: if_splits)
  from s1 show ?thesis
  proof
    assume a: "?k < 26 \<and> exec e i (open_and_write i ! ?k) s = Some s1"
    then have wf1: "wf s1" using wf i wf_exec by blast
    with i have same: "status (procs s' ! i) = status (procs s1 ! i)"
      "appended s' = appended s1" "console s' = console s1"
      "\<And>d. good d (procs s' ! i) = good d (procs s1 ! i)"
      by (simp_all add: s' upd_proc_def wf_def)
    from step_effect2 [OF wf assms(2)] check_passes [OF inv fl i st] a
    have "status (procs s' ! i) = None" by auto
    then have "status (procs s1 ! i) = None" by (simp add: same)
    from exec_effect3 [OF wf i conjunct2 [OF a] assms(3) this] a show ?thesis
      unfolding same by simp
  next
    assume a: "26 \<le> ?k \<and> s1 = exit_proc 0 i s"
    with k wf i show ?thesis
      by (simp add: s' upd_proc_def exit_proc_def wf_def)
  qed
qed

lemma inv3_boot: "boot e = Inr s \<Longrightarrow> inv3 e s"
  apply (frule inv2_boot)
  apply (drule boot_Inr)
  apply (simp add: inv3_def streams_ok_def files_ok_def console_ok_def child_def good_def
      onet_def written_def less_Suc_eq numeral_eq_Suc split: db.splits)
  done

lemma streams_okD:
  "streams_ok e s \<Longrightarrow> i < 5 \<Longrightarrow> switch_i i = Some t \<Longrightarrow>
   good d (procs s ! i) = (0 < onet i (pc (procs s ! i)) d \<and> \<not> denied e (filename d t))"
  unfolding streams_ok_def by blast

lemma inv3_step:
  assumes "inv3 e s" "step e i s = Some s'"
  shows "inv3 e s'"
proof -
  from assms(1) have inv2: "inv2 s" and so: "streams_ok e s" and fo: "files_ok e s"
    and co: "console_ok s" by (simp_all add: inv3_def)
  from inv2 have inv: "inv s" by (simp add: inv2_def)
  note wf = inv_wf [OF inv] and len = inv_len [OF inv]
  let ?k = "pc (procs s ! i)" and ?ins = "open_and_write i ! pc (procs s ! i)"
  let ?p = "procs s ! i"
  from step_effect [OF wf assms(2)] obtain p' where i: "i < 5" and st: "status ?p = None"
    and ps: "procs s' = (procs s)[i := p']" and pc': "pc p' = Suc ?k"
    by blast
  from i len have pi: "procs s' ! i = p'" and po: "\<And>j. j \<noteq> i \<Longrightarrow> procs s' ! j = procs s ! j"
    by (simp_all add: ps)
  from switch_i_Some [OF i] obtain t where t: "switch_i i = Some t" ..
  from local_running [OF inv_local [OF inv i] st] have k: "?k \<le> 26" by simp
  have g: "good d ?p = (0 < onet i ?k d \<and> \<not> denied e (filename d t))" for d
    using so i t by (rule streams_okD)
  have b: "onet i ?k d = 0 \<or> onet i ?k d = 1" for d
    using onet_open [OF i, of ?k d] k by simp
  have inv2': "inv2 s'" using inv2 assms(2) by (rule inv2_step)
  from step_effect3 [OF inv2 assms(2) t, unfolded pi]
  consider
    (run) "?k < 26"
      "\<And>f. appended s' f = appended s f @
            (case ?ins of Write d ph \<Rightarrow>
               if good d ?p \<and> filename d t = f then [mk_line ph (fst t) i] else []
             | _ \<Rightarrow> [])"
      "\<And>d. good d p' =
            (case ?ins of
               Open d' \<Rightarrow> if d = d' then \<not> denied e (filename d t) else good d ?p
             | Close d' \<Rightarrow> if d = d' then False else good d ?p
             | _ \<Rightarrow> good d ?p)"
      "\<forall>m \<in> set (console s'). m \<in> set (console s) \<or> is_progress m"
  | (exit) "?k = 26" "appended s' = appended s" "console s' = console s"
      "\<And>d. good d p' = good d ?p"
    by blast
  then show ?thesis
  proof cases
    case run
    have new: "(case ?ins of Write d ph \<Rightarrow>
               if good d ?p \<and> filename d t = f then [mk_line ph (fst t) i] else []
             | _ \<Rightarrow> []) = wdelta e i ?ins f" for f
    proof (cases ?ins)
      case (Write d ph)
      from write_openI [OF i run(1)] Write have "open_at ?k d" by (simp add: write_open_def)
      with onet_open [OF i, of ?k d] k have "0 < onet i ?k d" by simp
      with g [of d] Write t show ?thesis by (auto simp: wdelta_def)
    qed (simp_all add: wdelta_def)
    have "streams_ok e s'"
      unfolding streams_ok_def
    proof (intro allI impI)
      fix j :: nat and d :: db and t' :: "string \<times> string \<times> string"
      assume j: "j < 5" and t': "switch_i j = Some t'"
      show "good d (procs s' ! j) =
            (0 < onet j (pc (procs s' ! j)) d \<and> \<not> denied e (filename d t'))"
      proof (cases "j = i")
        case False
        with streams_okD [OF so j t', of d] po show ?thesis by simp
      next
        case True
        with t t' have tt: "t' = t" by simp
        from onet_Suc [OF run(1), of i d] b [of d] g [of d] run(3) [of d]
        show ?thesis unfolding True pi pc' tt
          by (cases ?ins) (auto simp: odelta_def split: if_splits)
      qed
    qed
    moreover have "files_ok e s'"
      unfolding files_ok_def
    proof (intro allI conjI impI ballI)
      fix f :: string and j :: nat assume j: "j < 5"
      from fo j have old: "filter (\<lambda>l. who l = j) (appended s f) = written e j (pc (procs s ! j)) f"
        by (simp add: files_ok_def)
      show "filter (\<lambda>l. who l = j) (appended s' f) = written e j (pc (procs s' ! j)) f"
      proof (cases "j = i")
        case False
        then have "filter (\<lambda>l. who l = j) (wdelta e i ?ins f) = []"
          by (auto simp: wdelta_def split: instr.splits option.splits)
        with False old po show ?thesis by (simp add: run(2) new)
      next
        case True
        have "filter (\<lambda>l. who l = i) (wdelta e i ?ins f) = wdelta e i ?ins f"
          by (auto simp: wdelta_def split: instr.splits option.splits)
        with old show ?thesis unfolding True pi pc'
          by (simp add: run(2) new written_Suc [OF run(1)])
      qed
    next
      fix f :: string and l :: line assume l: "l \<in> set (appended s' f)"
      have "who l' = i" if "l' \<in> set (wdelta e i ?ins f)" for l'
        using that by (auto simp: wdelta_def split: instr.splits option.splits if_splits)
      with l fo i show "who l < 5" by (auto simp: run(2) new files_ok_def)
    qed
    moreover from run(4) co have "console_ok s'" by (auto simp: console_ok_def)
    ultimately show ?thesis using inv2' by (simp add: inv3_def)
  next
    case exit
    have "streams_ok e s'"
      unfolding streams_ok_def
    proof (intro allI impI)
      fix j :: nat and d :: db and t' :: "string \<times> string \<times> string"
      assume j: "j < 5" and t': "switch_i j = Some t'"
      show "good d (procs s' ! j) =
            (0 < onet j (pc (procs s' ! j)) d \<and> \<not> denied e (filename d t'))"
      proof (cases "j = i")
        case False
        with streams_okD [OF so j t', of d] po show ?thesis by simp
      next
        case True
        with t t' have tt: "t' = t" by simp
        from g [of d] exit(1,4) show ?thesis unfolding True pi pc' tt by simp
      qed
    qed
    moreover have "files_ok e s'"
      unfolding files_ok_def
    proof (intro allI conjI impI ballI)
      fix f :: string and j :: nat assume j: "j < 5"
      from fo j have old: "filter (\<lambda>l. who l = j) (appended s f) = written e j (pc (procs s ! j)) f"
        by (simp add: files_ok_def)
      show "filter (\<lambda>l. who l = j) (appended s' f) = written e j (pc (procs s' ! j)) f"
      proof (cases "j = i")
        case False
        with old po show ?thesis by (simp add: exit(2))
      next
        case True
        from old show ?thesis unfolding True pi pc' by (simp add: exit(1,2))
      qed
    next
      fix f :: string and l :: line assume "l \<in> set (appended s' f)"
      with fo show "who l < 5" by (simp add: exit(2) files_ok_def)
    qed
    moreover from exit(3) co have "console_ok s'" by (simp add: console_ok_def)
    ultimately show ?thesis using inv2' by (simp add: inv3_def)
  qed
qed

lemma inv3_reachable: "reachable e s \<Longrightarrow> inv3 e s"
  by (induction rule: reachable.induct) (auto intro: inv3_boot inv3_step)

lemma ring_table_enum: "list_all ring_table [0..<5]"
  by code_simp

lemma ring_tableI: "i < 5 \<Longrightarrow> ring_table i"
  using ring_table_enum by (simp add: list_all_iff)

lemma filename_uses: "switch_i j = Some t \<Longrightarrow> uses j (filename d t)"
  by (cases t; cases d) (simp_all add: uses_def filename_def)

lemma wdelta_uses:
  assumes "l \<in> set (wdelta e j ins f)"
  shows "uses j f \<and> \<not> denied e f \<and> who l = j"
proof (cases ins)
  case (Write d ph)
  show ?thesis
  proof (cases "switch_i j")
    case None
    with assms Write show ?thesis by (simp add: wdelta_def)
  next
    case (Some t)
    with assms Write filename_uses [OF Some, of d] show ?thesis
      by (auto simp: wdelta_def split: if_splits)
  qed
qed (use assms in \<open>simp_all add: wdelta_def\<close>)

lemma written_uses: "l \<in> set (written e j k f) \<Longrightarrow> uses j f \<and> \<not> denied e f \<and> who l = j"
  by (auto simp: written_def dest: wdelta_uses in_set_takeD)

lemma written_final:
  assumes "switch_i i = Some (n, f1, f2)" "f1 \<noteq> f2" "\<not> denied e f"
  shows "written e i 26 f =
           (if f = f1 \<or> f = f2 then [Being_used_by n i, Free_from_the n i] else [])"
  using assms
  by (auto simp: written_def open_and_write_def wdelta_def filename_def mk_line_def)

lemma length_two_parts:
  assumes "a \<noteq> b" "\<And>l. l \<in> set xs \<Longrightarrow> who l = a \<or> who l = b"
  shows "length xs = length (filter (\<lambda>l. who l = a) xs) + length (filter (\<lambda>l. who l = b) xs)"
  using assms by (induction xs) auto

lemma exited_all:
  assumes "inv2 s" "all_exited s" "i < 5"
  shows "status (procs s ! i) = Some 0 \<and> pc (procs s ! i) = 27"
proof -
  from assms(1) have inv: "inv s" and cl: "clean s" by (simp_all add: inv2_def)
  from assms(2,3) all_exited_iff [OF inv] obtain c where "status (procs s ! i) = Some c" by auto
  with cl assms(3) show ?thesis by (auto simp: clean_def)
qed

lemma line_source:
  assumes "inv3 e s" "l \<in> set (appended s f)"
  shows "who l < 5 \<and> l \<in> set (written e (who l) (pc (procs s ! who l)) f)"
proof -
  from assms(1) have fo: "files_ok e s" by (simp add: inv3_def)
  with assms(2) have w: "who l < 5" by (simp add: files_ok_def)
  with fo have "filter (\<lambda>x. who x = who l) (appended s f) = written e (who l) (pc (procs s ! who l)) f"
    by (simp add: files_ok_def)
  moreover from assms(2) have "l \<in> set (filter (\<lambda>x. who x = who l) (appended s f))" by simp
  ultimately show ?thesis using w by simp
qed

lemma denied_empty:
  assumes "inv3 e s" "denied e f"
  shows "appended s f = []"
proof (rule ccontr)
  assume "appended s f \<noteq> []"
  then obtain l where "l \<in> set (appended s f)" by (cases "appended s f") auto
  from line_source [OF assms(1) this] written_uses assms(2) show False by blast
qed

lemma final_lines:
  assumes "inv3 e s" "all_exited s" "i < 5" "switch_i i = Some (n, f1, f2)" "f1 \<noteq> f2"
    "\<not> denied e f"
  shows "filter (\<lambda>l. who l = i) (appended s f) =
           (if f = f1 \<or> f = f2 then [Being_used_by n i, Free_from_the n i] else [])"
proof -
  from assms(1) have inv2: "inv2 s" and fo: "files_ok e s" by (simp_all add: inv3_def)
  from exited_all [OF inv2 assms(2,3)] have "pc (procs s ! i) = 27" by simp
  with fo assms(3) have "filter (\<lambda>l. who l = i) (appended s f) = written e i 26 f"
    by (simp add: files_ok_def)
  with written_final [OF assms(4,5,6)] show ?thesis by simp
qed

lemma ring_sink_lines:
  assumes "reachable e s" "all_exited s" "i < 5" "switch_i i = Some (n, f1, f2)"
    "switch_i (sem2 i) = Some (n', f1', f2')"
  shows "f2 = f1' \<and> (\<forall>j<5. uses j f2 \<longleftrightarrow> j = i \<or> j = sem2 i) \<and>
         (\<not> denied e f2 \<longrightarrow>
            length (appended s f2) = 4 \<and>
            filter (\<lambda>l. who l = i) (appended s f2) = [Being_used_by n i, Free_from_the n i] \<and>
            filter (\<lambda>l. who l = sem2 i) (appended s f2) =
              [Being_used_by n' (sem2 i), Free_from_the n' (sem2 i)])"
proof -
  from assms(1) have inv3: "inv3 e s" by (rule inv3_reachable)
  from assms(3) have i': "sem2 i < 5" and ne: "i \<noteq> sem2 i" by (simp_all add: sem2_def)
  from ring_tableI [OF assms(3)] assms(4,5)
  have rt: "f2 = f1' \<and> f1 \<noteq> f2 \<and> (\<forall>j<5. uses j f2 \<longleftrightarrow> j = i \<or> j = sem2 i)"
    by (auto simp: ring_table_def list_all_iff)
  then have a: "f2 = f1'" and b: "f1 \<noteq> f2" and c: "\<forall>j<5. uses j f2 \<longleftrightarrow> j = i \<or> j = sem2 i"
    by blast+
  from ring_tableI [OF i'] assms(5) have b': "f1' \<noteq> f2'"
    by (auto simp: ring_table_def split: option.splits)
  have d: "length (appended s f2) = 4 \<and>
        filter (\<lambda>l. who l = i) (appended s f2) = [Being_used_by n i, Free_from_the n i] \<and>
        filter (\<lambda>l. who l = sem2 i) (appended s f2) =
          [Being_used_by n' (sem2 i), Free_from_the n' (sem2 i)]"
    if nd: "\<not> denied e f2"
  proof -
    from final_lines [OF inv3 assms(2,3,4) b nd]
    have x: "filter (\<lambda>l. who l = i) (appended s f2) = [Being_used_by n i, Free_from_the n i]"
      by simp
    from final_lines [OF inv3 assms(2) i' assms(5) b' nd] a
    have y: "filter (\<lambda>l. who l = sem2 i) (appended s f2) =
          [Being_used_by n' (sem2 i), Free_from_the n' (sem2 i)]"
      by simp
    have "who l = i \<or> who l = sem2 i" if "l \<in> set (appended s f2)" for l
    proof -
      from line_source [OF inv3 that] written_uses
      have "who l < 5" "uses (who l) f2" by blast+
      with c show ?thesis by blast
    qed
    from length_two_parts [OF ne this] x y have "length (appended s f2) = 4" by simp
    with x y show ?thesis by simp
  qed
  from a c d show ?thesis by blast
qed

lemma list6:
  assumes "length xs = 6"
  shows "xs = [xs ! 0, xs ! 1, xs ! 2, xs ! 3, xs ! 4, xs ! 5]"
proof -
  from assms obtain a b c d e f where "xs = [a, b, c, d, e, f]"
    by (auto simp: numeral_eq_Suc length_Suc_conv)
  then show ?thesis by simp
qed

lemma list5:
  assumes "length xs = 5"
  shows "xs = [xs ! 0, xs ! 1, xs ! 2, xs ! 3, xs ! 4]"
proof -
  from assms obtain a b c d e where "xs = [a, b, c, d, e]"
    by (auto simp: numeral_eq_Suc length_Suc_conv)
  then show ?thesis by simp
qed

lemma final_semval:
  assumes "inv2 s" "all_exited s"
  shows "semval s = [1, 1, 1, 1, 1, 4] \<and> shm s = [0, 0, 0, 0, 0] \<and>
         (\<forall>i<5. \<forall>r<6. \<not> holds s i r)"
proof -
  from assms(1) have inv: "inv s" and fl: "flags_ok s" by (simp_all add: inv2_def)
  from inv_wf [OF inv] have l6: "length (semval s) = 6" and l5: "length (shm s) = 5"
    by (simp_all add: wf_def)
  have z: "semadj (procs s ! i) ! r = 0" if "i < 5" "r < 6" for i r
    using local_exited [OF inv_local [OF inv that(1)]] exited_all [OF assms that(1)] that(2)
    by simp
  have nh: "\<not> holds s i r" if "i < 5" "r < 6" for i r
    using z [OF that] by (simp add: holds_def)
  have v: "semval s ! r = initval r" if "r < 6" for r
  proof -
    have "owed (procs s) r = (\<Sum>i = 0..<5. semadj (procs s ! i) ! r)"
      by (simp add: owed_nth inv_len [OF inv])
    also have "\<dots> = (\<Sum>i = 0..<5::nat. 0)"
      by (rule sum.cong) (simp_all add: z that)
    finally have "owed (procs s) r = 0" by simp
    with inv_sems [OF inv that] show ?thesis by simp
  qed
  have f: "shm s ! r = 0" if "r < 5" for r
  proof (rule ccontr)
    assume "shm s ! r \<noteq> 0"
    with fl that obtain j where "j < 5" "status (procs s ! j) = None"
      by (auto simp: flags_ok_def)
    with exited_all [OF assms, of j] show False by simp
  qed
  have "semval s = [semval s ! 0, semval s ! 1, semval s ! 2, semval s ! 3, semval s ! 4,
      semval s ! 5]"
    using l6 by (rule list6)
  also have "\<dots> = [1, 1, 1, 1, 1, 4]"
    using v [of 0] v [of 1] v [of 2] v [of 3] v [of 4] v [of 5] by (simp add: initval_def)
  finally have sv: "semval s = [1, 1, 1, 1, 1, 4]" .
  have "shm s = [shm s ! 0, shm s ! 1, shm s ! 2, shm s ! 3, shm s ! 4]"
    using l5 by (rule list5)
  also have "\<dots> = [0, 0, 0, 0, 0]"
    using f [of 0] f [of 1] f [of 2] f [of 3] f [of 4] by simp
  finally have "shm s = [0, 0, 0, 0, 0]" .
  with sv nh show ?thesis by blast
qed

lemma boot_staff_denied: "\<exists>s0. boot staff_denied = Inr s0"
  by (simp add: boot_def upt5 PROC_COUNT_def staff_denied_def plain_env_def
      create_semaphore_set_def start_def init_sem_def Let_def)

lemma no_circular_wait:
  assumes "inv s"
  shows "\<not> list_all (waits_for_next s) [0..<5]"
proof
  assume "list_all (waits_for_next s) [0..<5]"
  then have all: "\<And>i. i < 5 \<Longrightarrow> waits_for_next s i" by (simp add: list_all_iff)
  have g: "holds s i 5" if i: "i < 5" for i
  proof -
    from all [OF i] have st: "status (procs s ! i) = None" and h1: "holds s i (sem1 i)"
      and h2: "\<not> holds s i (sem2 i)" by (simp_all add: waits_for_next_def)
    from i have r: "sem1 i < 6" "sem2 i < 6" by (simp_all add: sem1_def sem2_def)
    from h1 h2 holds_pc [OF assms i r(1) st] holds_pc [OF assms i r(2) st] i
    have "pc (procs s ! i) = 2" by (auto simp: held_at_def sem1_def sem2_def)
    with holds_pc [OF assms i _ st, of 5] show ?thesis by (simp add: held_at_def)
  qed
  have "filter (\<lambda>i. holds s i 5) [0..<5] = [0..<5]"
    by (rule filter_True) (simp add: g)
  then have "length (filter (\<lambda>i. holds s i 5) [0..<5]) = 5" by simp
  with owed_count [OF assms, of 5] inv_sems [OF assms, of 5] show False
    by (auto simp: initval_def)
qed

section \<open>The properties\<close>

text \<open>
  C1 (no deadlock). The program fixes the ring at five resources and the gate at four
  slots. After a successful start, every run of the five children has at most 135
  steps (27 for each child); in the state it reaches either every child has exited or
  some child can take a step; it can be continued to a state in which every child has
  exited; at most four children are past the gate, and so the five children are never
  all holding their first resource without the second one: the cycle of the circular
  wait does not form. No run hangs, and none goes on for ever.
\<close>

theorem no_run_hangs:
  assumes "boot e = Inr s0" "run e sched s0 = Some s"
  shows "length sched \<le> 135 \<and>
         (all_exited s \<or> (\<exists>i<5. \<exists>s1. step e i s = Some s1)) \<and>
         (\<exists>rest s'. run e (sched @ rest) s0 = Some s' \<and> all_exited s') \<and>
         length (filter (\<lambda>i. holds s i 5) [0..<5]) \<le> 4 \<and>
         \<not> list_all (waits_for_next s) [0..<5]"
proof -
  from assms(1) have inv0: "inv s0" by (rule inv_boot)
  from boot_Inr [OF assms(1)] have "steps_done s0 = 0" by (simp add: steps_done_def child_def)
  with run_inv [OF inv0 assms(2)] have inv: "inv s" and n: "steps_done s = length sched"
    by simp_all
  from steps_bound [OF inv] n have "length sched \<le> 135" by simp
  moreover from can_step [OF inv, of e] have "all_exited s \<or> (\<exists>i<5. \<exists>s1. step e i s = Some s1)"
    by blast
  moreover from completion [OF inv, of e] obtain rest s' where
    "run e rest s = Some s'" "all_exited s'" by blast
  with assms(2) have "run e (sched @ rest) s0 = Some s' \<and> all_exited s'"
    by (simp add: run_append)
  then have "\<exists>rest s'. run e (sched @ rest) s0 = Some s' \<and> all_exited s'" by blast
  moreover from owed_count [OF inv, of 5] inv_sems [OF inv, of 5]
  have "length (filter (\<lambda>i. holds s i 5) [0..<5]) \<le> 4" by (simp add: initval_def)
  moreover note no_circular_wait [OF inv]
  ultimately show ?thesis by blast
qed

theorem no_run_hangs_witness:
  "(case boot plain_env of
      Inl s \<Rightarrow> False
    | Inr s0 \<Rightarrow>
        (case run plain_env [0, 1, 2, 3, 0] s0 of
           None \<Rightarrow> False
         | Some s \<Rightarrow> \<not> all_exited s \<and> (\<exists>i<5. \<exists>s1. step plain_env i s = Some s1)))"
proof -
  from boot_plain obtain s0 where b: "boot plain_env = Inr s0" ..
  have "case run plain_env [0, 1, 2, 3, 0] (state_after plain_env []) of
          None \<Rightarrow> False | Some s \<Rightarrow> True" by code_simp
  with b obtain s where r: "run plain_env [0, 1, 2, 3, 0] s0 = Some s"
    by (auto simp: state_after_def split: option.splits)
  have "\<not> all_exited (state_after plain_env [0, 1, 2, 3, 0])" by code_simp
  with b r have ne: "\<not> all_exited s" by (simp add: state_after_def)
  from no_run_hangs [OF b r] ne have "\<exists>i<5. \<exists>s1. step plain_env i s = Some s1" by blast
  with b r ne show ?thesis by simp
qed

text \<open>
  C2 (mutual exclusion). Child \<open>i\<close> holds semaphore \<open>r\<close> when it has taken a unit of \<open>r\<close>
  that it has not given back (\<open>holds\<close>: its undo adjustment for \<open>r\<close> is positive). In
  every state the children can reach after a successful start, no two children hold the
  lock of the same resource \<open>r \<in> {0..4}\<close>, and the value of that semaphore is 0 or 1. The
  semaphore starts at 1, and \<open>acquire_resource\<close> takes a step only when the value is
  positive, lowering it by one.
\<close>

theorem mutual_exclusion:
  assumes "reachable e s" "r < 5"
  shows "(holds s i r \<and> holds s j r \<longrightarrow> i = j) \<and>
         length (filter (\<lambda>i. holds s i r) [0..<5]) \<le> 1 \<and>
         0 \<le> semval s ! r \<and> semval s ! r \<le> 1 \<and>
         (boot e = Inr s0 \<longrightarrow> semval s0 ! r = 1) \<and>
         (acquire_resource s i r = Some s' \<longrightarrow>
            0 < semval s ! r \<and> semval s' ! r = semval s ! r - 1)"
proof -
  from assms(1) have inv: "inv s" by (rule inv_reachable)
  from assms(2) have r6: "r < 6" by simp
  from inv_sems [OF inv r6] owed_count [OF inv r6] assms(2)
  have cnt: "semval s ! r + int (length (filter (\<lambda>i. holds s i r) [0..<5])) = 1"
    and nn: "0 \<le> semval s ! r"
    by (simp_all add: initval_def)
  have "semval s0 ! r = 1" if "boot e = Inr s0"
    using boot_Inr [OF that] assms(2) by (auto simp: less_Suc_eq numeral_eq_Suc)
  moreover have "0 < semval s ! r \<and> semval s' ! r = semval s ! r - 1"
    if "acquire_resource s i r = Some s'"
    using that inv_wf [OF inv] r6
    by (auto simp: acquire_resource_def upd_proc_def wf_def split: if_splits)
  moreover have "i = j" if "holds s i r \<and> holds s j r"
    using inv_mutex [OF inv _ _ assms(2)] that by blast
  ultimately show ?thesis using cnt nn by auto
qed

theorem mutual_exclusion_witness:
  "reachable plain_env (state_after plain_env [0, 0, 0, 1]) \<and>
   holds (state_after plain_env [0, 0, 0, 1]) 0 1 \<and>
   \<not> holds (state_after plain_env [0, 0, 0, 1]) 1 1 \<and>
   semval (state_after plain_env [0, 0, 0, 1]) ! 1 = 0 \<and>
   step plain_env 1 (state_after plain_env [0, 0, 0, 1]) = None"
proof -
  let ?s = "state_after plain_env [0, 0, 0, 1]"
  have r: "reachable plain_env ?s" by (rule reachable_plain)
  have h: "holds ?s 0 1" by code_simp
  have v: "semval ?s ! 1 = 0" by code_simp
  have b: "step plain_env 1 ?s = None" by code_simp
  from mutual_exclusion [OF r, of 1 0 1] h have "\<not> holds ?s 1 1" by auto
  with r h v b show ?thesis by simp
qed

text \<open>
  C3 (admission bound). A child is past the gate when it holds a unit of semaphore 5:
  for a running child that is from the step after \<open>acquire_resource(semSet, 5)\<close> to the
  step before the final \<open>release_resource(semSet, 5)\<close>. In every reachable state at most
  4 children are past the gate, and the value of semaphore 5 is 4 minus their number.
\<close>

theorem admission_bound:
  assumes "reachable e s"
  shows "length (filter (\<lambda>i. holds s i 5) [0..<5]) \<le> 4 \<and>
         semval s ! 5 = 4 - int (length (filter (\<lambda>i. holds s i 5) [0..<5])) \<and>
         (\<forall>i<5. status (procs s ! i) = None \<longrightarrow>
            (holds s i 5 \<longleftrightarrow> 1 \<le> pc (procs s ! i) \<and> pc (procs s ! i) \<le> 25))"
proof -
  from assms have inv: "inv s" by (rule inv_reachable)
  from inv_sems [OF inv, of 5] owed_count [OF inv, of 5]
  have "0 \<le> semval s ! 5"
    and "semval s ! 5 + int (length (filter (\<lambda>i. holds s i 5) [0..<5])) = 4"
    by (simp_all add: initval_def)
  moreover have "holds s i 5 \<longleftrightarrow> 1 \<le> pc (procs s ! i) \<and> pc (procs s ! i) \<le> 25"
    if "i < 5" "status (procs s ! i) = None" for i
    using holds_pc [OF inv that(1) _ that(2), of 5] that(1)
    by (auto simp: held_at_def sem1_def sem2_def)
  ultimately show ?thesis by auto
qed

theorem admission_bound_witness:
  "reachable plain_env (state_after plain_env [0, 1, 2, 3]) \<and>
   length (filter (\<lambda>i. holds (state_after plain_env [0, 1, 2, 3]) i 5) [0..<5]) = 4 \<and>
   semval (state_after plain_env [0, 1, 2, 3]) ! 5 = 0 \<and>
   step plain_env 4 (state_after plain_env [0, 1, 2, 3]) = None"
proof -
  let ?s = "state_after plain_env [0, 1, 2, 3]"
  have r: "reachable plain_env ?s" by (rule reachable_plain)
  have c: "length (filter (\<lambda>i. holds ?s i 5) [0..<5]) = 4" by code_simp
  have b: "step plain_env 4 ?s = None" by code_simp
  from admission_bound [OF r] c have "semval ?s ! 5 = 0" by simp
  with r c b show ?thesis by simp
qed

text \<open>
  C4 (acquisition order). The first three statements of child \<open>i \<in> {0..4}\<close> are the
  acquisitions of the gate (semaphore 5), of resource \<open>i\<close> and of resource
  \<open>(i + 1) mod 5\<close>, in this order, and no later statement is an acquisition. In every
  reachable state, a running child that cannot take a step is at one of these three
  statements, and a running child whose next statement is one of the statements 3 to
  19 (from the first test of a flag to the first release) holds all three semaphores.
\<close>

theorem acquisition_order:
  assumes "reachable e s" "i < 5"
  shows "take 3 (open_and_write i) = [Acquire 5, Acquire i, Acquire ((i + 1) mod 5)] \<and>
         list_all (\<lambda>ins. \<not> is_acquire ins) (drop 3 (open_and_write i)) \<and>
         (status (procs s ! i) = None \<and> step e i s = None \<longrightarrow> pc (procs s ! i) < 3) \<and>
         (status (procs s ! i) = None \<and> 3 \<le> pc (procs s ! i) \<and> pc (procs s ! i) \<le> 19 \<longrightarrow>
            holds s i 5 \<and> holds s i i \<and> holds s i ((i + 1) mod 5))"
proof -
  from assms(1) have inv: "inv s" by (rule inv_reachable)
  have a: "take 3 (open_and_write i) = [Acquire 5, Acquire i, Acquire ((i + 1) mod 5)]"
    using sem2_mod [OF assms(2)] by (simp add: open_and_write_def sem1_def)
  have b: "list_all (\<lambda>ins. \<not> is_acquire ins) (drop 3 (open_and_write i))"
    by (simp add: open_and_write_def)
  have c: "pc (procs s ! i) < 3" if "status (procs s ! i) = None" "step e i s = None"
    using stuck [OF inv assms(2) that] by auto
  have d: "holds s i 5 \<and> holds s i i \<and> holds s i ((i + 1) mod 5)"
    if st: "status (procs s ! i) = None" and k: "3 \<le> pc (procs s ! i)" "pc (procs s ! i) \<le> 19"
  proof -
    have "holds s i r" if "r = 5 \<or> r = sem1 i \<or> r = sem2 i" for r
    proof -
      from that assms(2) have r6: "r < 6" by (auto simp: sem1_def sem2_def)
      from that k have "held_at i (pc (procs s ! i)) r" by (auto simp: held_at_def)
      with holds_pc [OF inv assms(2) r6 st] show ?thesis by simp
    qed
    from this [of 5] this [of "sem1 i"] this [of "sem2 i"] sem2_mod [OF assms(2)]
    show ?thesis by (simp add: sem1_def)
  qed
  from a b c d show ?thesis by blast
qed

theorem acquisition_order_witness:
  "reachable plain_env (state_after plain_env [4, 4, 4]) \<and> (4::nat) < 5 \<and>
   take 3 (open_and_write 4) = [Acquire 5, Acquire 4, Acquire 0] \<and>
   pc (procs (state_after plain_env [4, 4, 4]) ! 4) = 3 \<and>
   holds (state_after plain_env [4, 4, 4]) 4 5 \<and>
   holds (state_after plain_env [4, 4, 4]) 4 4 \<and>
   holds (state_after plain_env [4, 4, 4]) 4 0"
proof -
  let ?s = "state_after plain_env [4, 4, 4]"
  have r: "reachable plain_env ?s" by (rule reachable_plain)
  have p: "pc (procs ?s ! 4) = 3" and st: "status (procs ?s ! 4) = None" by code_simp+
  from acquisition_order [OF r, of 4] p st r show ?thesis by simp
qed

text \<open>
  C5 (release protocol). After its last write, child \<open>i \<in> {0..4}\<close> closes
  \<open>db1\<close>, stores 0 in the flag of resource \<open>i\<close>, releases the lock of resource \<open>i\<close>, then
  closes \<open>db2\<close>, stores 0 in the flag of resource \<open>(i + 1) mod 5\<close>, releases the lock of
  that resource, and releases the gate (semaphore 5) as its last statement. Each flag
  is cleared before the lock of its own resource is released: in every reachable state
  a flag that is not 0 belongs to a resource whose lock some child holds.
\<close>

theorem release_order:
  assumes "i < 5"
  shows "release_chain i \<and>
         (reachable e s \<and> r < 5 \<and> shm s ! r \<noteq> 0 \<longrightarrow> (\<exists>j<5. holds s j r))"
proof -
  from release_chain_enum assms have "release_chain i" by (simp add: list_all_iff)
  with busy_flag_held [of e s r] show ?thesis by blast
qed

theorem release_order_witness:
  "(0::nat) < 5 \<and> release_chain 0 \<and>
   reachable plain_env (state_after plain_env (replicate 20 0)) \<and>
   shm (state_after plain_env (replicate 20 0)) ! 1 = 1 \<and>
   holds (state_after plain_env (replicate 20 0)) 0 1"
proof -
  let ?s = "state_after plain_env (replicate 20 0)"
  have r: "reachable plain_env ?s" by (rule reachable_plain)
  have f: "shm ?s ! 1 = 1" by code_simp
  have h: "holds ?s 0 1" by code_simp
  from release_order [of 0 plain_env ?s 1] r f h show ?thesis by simp
qed

text \<open>
  The claim as the specification states it fails: after 20 steps of child 0 alone,
  child 0 has executed \<open>release_resource(semSet, sem1)\<close> (statement 19), the lock of
  resource 0 is free again, and the flag of resource 1 is still 1; it is cleared by
  statement 22 only.
\<close>

theorem release_order_counterexample:
  "\<not> pos (SetFree (sem2 0)) (open_and_write 0) < pos (Release (sem1 0)) (open_and_write 0) \<and>
   reachable plain_env (state_after plain_env (replicate 20 0)) \<and>
   pc (procs (state_after plain_env (replicate 20 0)) ! 0) = 20 \<and>
   open_and_write 0 ! 19 = Release (sem1 0) \<and>
   open_and_write 0 ! 22 = SetFree (sem2 0) \<and>
   \<not> holds (state_after plain_env (replicate 20 0)) 0 (sem1 0) \<and>
   semval (state_after plain_env (replicate 20 0)) ! sem1 0 = 1 \<and>
   shm (state_after plain_env (replicate 20 0)) ! sem2 0 = 1"
proof -
  let ?s = "state_after plain_env (replicate 20 0)"
  have "\<not> pos (SetFree (sem2 0)) (open_and_write 0) < pos (Release (sem1 0)) (open_and_write 0)"
    by code_simp
  moreover have "reachable plain_env ?s" by (rule reachable_plain)
  moreover have "pc (procs ?s ! 0) = 20" by code_simp
  moreover have "open_and_write 0 ! 19 = Release (sem1 0)" "open_and_write 0 ! 22 = SetFree (sem2 0)"
    by (simp_all add: open_and_write_def)
  moreover have "\<not> holds ?s 0 (sem1 0)" by code_simp
  moreover have "semval ?s ! sem1 0 = 1" by code_simp
  moreover have "shm ?s ! sem2 0 = 1" by code_simp
  ultimately show ?thesis by blast
qed

text \<open>
  C6 (the test of the busy flag). When a running child \<open>i \<in> {0..4}\<close> is at
  the test \<open>if (*shm_ary[r] == 0)\<close>: if the flag is not 0, its step prints
  \<open>ERROR: Resources are in use!\<close> and ends this child with status 255 (\<open>exit(-1)\<close>),
  leaving the flags and every other child as they are; if the flag is 0, the child
  goes on and its next step stores 1 in the flag. The parent's exit status does not
  depend on it: whenever \<open>main\<close> gets past \<open>wait\<close>, it exits with 0. In every state
  reachable after a successful start the flag is 0 at the test, the message is never
  printed and every child that has exited has status 0.
\<close>

theorem busy_flag_test:
  assumes "i < 5" "i < length (procs s)" "status (procs s ! i) = None" "pc (procs s ! i) < 26"
    "open_and_write i ! pc (procs s ! i) = Check r" "r < length (shm s)"
  shows "(shm s ! r \<noteq> 0 \<longrightarrow>
            (\<exists>s'. step e i s = Some s' \<and> status (procs s' ! i) = Some 255 \<and>
               console s' = console s @ [Resources_are_in_use] \<and> shm s' = shm s \<and>
               (\<forall>j<length (procs s). j \<noteq> i \<longrightarrow> procs s' ! j = procs s ! j))) \<and>
         (shm s ! r = 0 \<longrightarrow>
            (\<exists>s' s''. step e i s = Some s' \<and> status (procs s' ! i) = None \<and> shm s' = shm s \<and>
               console s' = console s \<and> step e i s' = Some s'' \<and> shm s'' = (shm s)[r := 1] \<and>
               status (procs s'' ! i) = None)) \<and>
         (wait_all e sched s = Some (c, t) \<longrightarrow> c = 0) \<and>
         (reachable e s \<longrightarrow>
            shm s ! r = 0 \<and> Resources_are_in_use \<notin> set (console s) \<and>
            (\<forall>j<5. status (procs s ! j) = None \<or> status (procs s ! j) = Some 0))"
proof -
  have "c = 0" if "wait_all e sched s = Some (c, t)"
    using that by (auto simp: wait_all_def split: option.splits if_splits)
  with check_fails [OF assms(2-6), of e] check_succeeds [OF assms, of e]
    check_reachable [OF _ assms(1,3,4,5), of e] never_fails [of e s]
  show ?thesis by blast
qed

theorem busy_flag_test_witness:
  "(0::nat) < 5 \<and> reachable plain_env (state_after plain_env [0, 0, 0]) \<and>
   pc (procs (state_after plain_env [0, 0, 0]) ! 0) = 3 \<and>
   open_and_write 0 ! 3 = Check 0 \<and>
   shm (state_after plain_env [0, 0, 0]) ! 0 = 0 \<and>
   Resources_are_in_use \<notin> set (console (state_after plain_env [0, 0, 0])) \<and>
   shm (state_after plain_env [0, 0, 0, 0, 0]) ! 0 = 1"
proof -
  let ?s = "state_after plain_env [0, 0, 0]"
  have r: "reachable plain_env ?s" by (rule reachable_plain)
  have a: "0 < length (procs ?s)" "status (procs ?s ! 0) = None" "pc (procs ?s ! 0) = 3"
    "0 < length (shm ?s)" by code_simp+
  have b: "open_and_write 0 ! 3 = Check 0" by (simp add: open_and_write_def sem1_def)
  have c: "shm (state_after plain_env [0, 0, 0, 0, 0]) ! 0 = 1" by code_simp
  from busy_flag_test [of 0 ?s 0 plain_env] a b r c show ?thesis by simp
qed

text \<open>
  The claim as the specification states it fails where its own premise holds. In
  \<open>stale_flag\<close> child 0 holds the gate and both its locks and is at the test of flag 0,
  and flag 0 is 1. Child 0 exits with status 255; children 1, 2 and 3 then run to
  their end with status 0 (child 4 meets the same flag and exits with 255), and the
  parent removes the objects and exits with status 0: nothing is aborted but the
  child itself.
\<close>

theorem busy_flag_test_counterexample:
  "pc (procs stale_flag ! 0) = 3 \<and> open_and_write 0 ! 3 = Check 0 \<and> shm stale_flag ! 0 = 1 \<and>
   holds stale_flag 0 0 \<and>
   map_option (\<lambda>(c, t). (c, map status (procs t))) (wait_all plain_env after_stale_flag stale_flag) =
     Some (0, [Some 255, Some 0, Some 0, Some 0, Some 255])"
proof -
  have "pc (procs stale_flag ! 0) = 3" "shm stale_flag ! 0 = 1" "holds stale_flag 0 0"
    by code_simp+
  moreover have "open_and_write 0 ! 3 = Check 0" by (simp add: open_and_write_def sem1_def)
  moreover have "map_option (\<lambda>(c, t). (c, map status (procs t)))
      (wait_all plain_env after_stale_flag stale_flag) =
     Some (0, [Some 255, Some 0, Some 0, Some 0, Some 255])"
    by code_simp
  ultimately show ?thesis by blast
qed

text \<open>
  C7 (a file that cannot be opened). Whatever files are denied, after a
  successful start every run of the children can be continued until all have exited;
  nothing but the two progress messages is ever printed, so the failure is not
  reported; a denied file receives no line. When all children have exited, every one
  of them has exit status 0, every semaphore has its initial value again (both locks
  and the gate slot of every child are released), every flag is 0, and \<open>main\<close>
  removes the objects and exits with status 0.
\<close>

theorem sink_fault:
  assumes "boot e = Inr s0" "run e sched s0 = Some s"
  shows "(\<exists>rest s'. run e (sched @ rest) s0 = Some s' \<and> all_exited s') \<and>
         list_all is_progress (console s) \<and>
         (\<forall>f. denied e f \<longrightarrow> appended s f = []) \<and>
         (all_exited s \<longrightarrow>
            (\<forall>i<5. status (procs s ! i) = Some 0) \<and>
            semval s = [1, 1, 1, 1, 1, 4] \<and> shm s = [0, 0, 0, 0, 0] \<and>
            (\<forall>i<5. \<forall>r<6. \<not> holds s i r) \<and>
            main e sched = Some (0, teardown s))"
proof -
  from reach_boot [OF assms(1)] assms(2) have r: "reachable e s" by (rule run_reachable)
  then have inv3: "inv3 e s" by (rule inv3_reachable)
  then have inv2: "inv2 s" and co: "console_ok s" by (simp_all add: inv3_def)
  from inv2 have inv: "inv s" by (simp add: inv2_def)
  from completion [OF inv, of e] obtain rest s' where
    "run e rest s = Some s'" "all_exited s'" by blast
  with assms(2) have "run e (sched @ rest) s0 = Some s' \<and> all_exited s'"
    by (simp add: run_append)
  then have a: "\<exists>rest s'. run e (sched @ rest) s0 = Some s' \<and> all_exited s'" by blast
  from co have b: "list_all is_progress (console s)" by (simp add: console_ok_def list_all_iff)
  from denied_empty [OF inv3] have c: "\<forall>f. denied e f \<longrightarrow> appended s f = []" by blast
  have d: "(\<forall>i<5. status (procs s ! i) = Some 0) \<and>
            semval s = [1, 1, 1, 1, 1, 4] \<and> shm s = [0, 0, 0, 0, 0] \<and>
            (\<forall>i<5. \<forall>r<6. \<not> holds s i r) \<and>
            main e sched = Some (0, teardown s)" if x: "all_exited s"
  proof -
    from exited_all [OF inv2 x] have "\<forall>i<5. status (procs s ! i) = Some 0" by blast
    moreover from assms x have "main e sched = Some (0, teardown s)"
      by (simp add: main_def wait_all_def)
    ultimately show ?thesis using final_semval [OF inv2 x] by blast
  qed
  from a b c d show ?thesis by blast
qed

theorem sink_fault_witness:
  "(case boot staff_denied of
      Inl s \<Rightarrow> False
    | Inr s0 \<Rightarrow>
        (case run staff_denied sequential s0 of
           None \<Rightarrow> False
         | Some s \<Rightarrow>
             all_exited s \<and> denied staff_denied ''staff.txt'' \<and> appended s ''staff.txt'' = [] \<and>
             semval s = [1, 1, 1, 1, 1, 4] \<and> status (procs s ! 2) = Some 0 \<and>
             main staff_denied sequential = Some (0, teardown s)))"
proof -
  from boot_staff_denied obtain s0 where b: "boot staff_denied = Inr s0" ..
  have "case run staff_denied sequential (state_after staff_denied []) of
          None \<Rightarrow> False | Some s \<Rightarrow> True" by code_simp
  with b obtain s where r: "run staff_denied sequential s0 = Some s"
    by (auto simp: state_after_def split: option.splits)
  have "all_exited (state_after staff_denied sequential)" by code_simp
  with b r have x: "all_exited s" by (simp add: state_after_def)
  have d: "denied staff_denied ''staff.txt''" by (simp add: staff_denied_def)
  from sink_fault [OF b r] x d b r show ?thesis by simp
qed

text \<open>
  The claim as the specification states it fails: with \<open>staff.txt\<close> (a file of
  children 2 and 3) denied, the five children run to their end, children 2 and 3
  print the same messages as the others and no error, all five exit with status 0,
  and \<open>main\<close> exits with status 0.
\<close>

theorem sink_fault_counterexample:
  "denied staff_denied ''staff.txt'' \<and>
   map_option (\<lambda>(c, t). (c, map status (procs t), list_all is_progress (console t),
                           length (console t), appended t ''staff.txt''))
     (main staff_denied sequential) =
   Some (0, [Some 0, Some 0, Some 0, Some 0, Some 0], True, 20, [])"
proof -
  have "denied staff_denied ''staff.txt''" by (simp add: staff_denied_def)
  moreover have "map_option (\<lambda>(c, t). (c, map status (procs t), list_all is_progress (console t),
                           length (console t), appended t ''staff.txt''))
     (main staff_denied sequential) =
   Some (0, [Some 0, Some 0, Some 0, Some 0, Some 0], True, 20, [])"
    by code_simp
  ultimately show ?thesis by blast
qed

text \<open>
  C8 (cleanup on every exit path of \<open>main\<close>): the code does not do it. When the third
  \<open>shmget\<close> fails, \<open>main\<close> exits with status 255 and leaves the semaphore set and the
  two segments it had created; when the fourth \<open>fork\<close> fails, it exits with status 255
  and leaves the semaphore set, all five segments and three running children it
  never waits for. Only the path through the \<open>wait\<close> loop removes the objects.
\<close>

theorem cleanup_skipped_on_failure:
  "map_option (\<lambda>(c, t). (c, semset t, shmIds t, length (procs t), console t))
     (main shmget_fails sched) =
     Some (255, True, [100, 101], 0, [Failed_getting_shared_memory]) \<and>
   map_option (\<lambda>(c, t). (c, semset t, shmIds t, length (procs t), console t))
     (main fork_fails sched) =
     Some (255, True, [100, 101, 102, 103, 104], 3, [Fork_Failed]) \<and>
   map_option (\<lambda>(c, t). (c, semset t, shmIds t, length (procs t)))
     (main plain_env sequential) =
     Some (0, False, [], 5)"
proof -
  have "map_option (\<lambda>(c, t). (c, semset t, shmIds t, length (procs t), console t))
     (main shmget_fails sched) =
     Some (255, True, [100, 101], 0, [Failed_getting_shared_memory])"
    by (simp add: main_def boot_def upt5 PROC_COUNT_def shmget_fails_def plain_env_def
        create_semaphore_set_def start_def init_sem_def say_def Let_def)
  moreover have "map_option (\<lambda>(c, t). (c, semset t, shmIds t, length (procs t), console t))
     (main fork_fails sched) =
     Some (255, True, [100, 101, 102, 103, 104], 3, [Fork_Failed])"
    by (simp add: main_def boot_def upt5 PROC_COUNT_def fork_fails_def plain_env_def
        create_semaphore_set_def start_def init_sem_def say_def Let_def)
  moreover have "map_option (\<lambda>(c, t). (c, semset t, shmIds t, length (procs t)))
     (main plain_env sequential) = Some (0, False, [], 5)"
    by code_simp
  ultimately show ?thesis by blast
qed

text \<open>
  C9 (sinks and their records). The \<open>switch\<close> gives child \<open>i\<close> two of five
  file names, and the second file of child \<open>i\<close> is the first file of child
  \<open>(i + 1) mod 5\<close> and of no other child: every file is shared by exactly two
  neighbours of the ring. When all five children have exited, a file that could be
  opened holds exactly 4 appended lines: \<open>Being used by\<close> and \<open>Free from the\<close> from each
  of its two children, two lines for each child and not one.
\<close>

theorem sink_topology_and_records:
  assumes "reachable e s" "all_exited s" "i < 5" "switch_i i = Some (n, f1, f2)"
    "switch_i ((i + 1) mod 5) = Some (n', f1', f2')"
  shows "f2 = f1' \<and> (\<forall>j<5. uses j f2 \<longleftrightarrow> j = i \<or> j = (i + 1) mod 5) \<and>
         (\<not> denied e f2 \<longrightarrow>
            length (appended s f2) = 4 \<and>
            filter (\<lambda>l. who l = i) (appended s f2) = [Being_used_by n i, Free_from_the n i] \<and>
            filter (\<lambda>l. who l = (i + 1) mod 5) (appended s f2) =
              [Being_used_by n' ((i + 1) mod 5), Free_from_the n' ((i + 1) mod 5)])"
proof -
  have e: "sem2 i = (i + 1) mod 5" using assms(3) by (rule sem2_mod)
  from ring_sink_lines [OF assms(1-4) assms(5) [folded e]] show ?thesis unfolding e .
qed

theorem sink_topology_and_records_witness:
  "reachable plain_env (state_after plain_env sequential) \<and>
   all_exited (state_after plain_env sequential) \<and> (4::nat) < 5 \<and>
   switch_i 4 = Some (''Faculty Payroll System'', ''salary.txt'', ''faculty.txt'') \<and>
   switch_i 0 = Some (''Courses System'', ''faculty.txt'', ''students.txt'') \<and>
   length (appended (state_after plain_env sequential) ''faculty.txt'') = 4 \<and>
   filter (\<lambda>l. who l = 0) (appended (state_after plain_env sequential) ''faculty.txt'') =
     [Being_used_by ''Courses System'' 0, Free_from_the ''Courses System'' 0]"
proof -
  let ?s = "state_after plain_env sequential"
  have r: "reachable plain_env ?s" by (rule reachable_plain)
  have x: "all_exited ?s" by code_simp
  have t4: "switch_i 4 = Some (''Faculty Payroll System'', ''salary.txt'', ''faculty.txt'')"
    and t0: "switch_i 0 = Some (''Courses System'', ''faculty.txt'', ''students.txt'')"
    by (simp_all add: switch_i_def)
  have nd: "\<not> denied plain_env ''faculty.txt''" by (simp add: plain_env_def)
  have m: "(4 + 1) mod 5 = (0::nat)" by simp
  from sink_topology_and_records [OF r x _ t4, unfolded m, OF _ t0] nd r x t4 t0
  show ?thesis by simp
qed

text \<open>
  The count of the specification fails: when the five children run one after the
  other and no file is denied, \<open>main\<close> exits with 0 and each of the five files has
  received 4 lines, not 2.
\<close>

theorem sink_records_counterexample:
  "map_option (\<lambda>(c, t). (c, map (\<lambda>f. length (appended t f)) five_files,
                           appended t ''faculty.txt''))
     (main plain_env sequential) =
   Some (0, [4, 4, 4, 4, 4],
     [Being_used_by ''Courses System'' 0, Free_from_the ''Courses System'' 0,
      Being_used_by ''Faculty Payroll System'' 4, Free_from_the ''Faculty Payroll System'' 4])"
  by code_simp

text \<open>
  C10 (the semaphore numbers of a child). For \<open>i \<in> {0..4}\<close> the semaphores that
  \<open>open_and_write\<close> acquires are 5, \<open>sem1 = i\<close> and \<open>sem2 = (i + 1) mod 5\<close>, in this order;
  the two resource numbers are different, both are below 5, so neither is the gate's
  number 5, and no semaphore is acquired twice.
\<close>

theorem semaphore_numbers:
  assumes "i < 5"
  shows "acquires (open_and_write i) = [5, sem1 i, sem2 i] \<and>
         sem1 i = i \<and> sem2 i = (i + 1) mod 5 \<and>
         sem1 i \<noteq> sem2 i \<and> sem1 i < 5 \<and> sem2 i < 5 \<and> sem1 i \<noteq> 5 \<and> sem2 i \<noteq> 5 \<and>
         distinct (acquires (open_and_write i))"
proof -
  have "sem1 i \<noteq> sem2 i" "sem1 i < 5" "sem2 i < 5"
    using assms by (simp_all add: sem1_def sem2_def)
  moreover have "acquires (open_and_write i) = [5, sem1 i, sem2 i]"
    by (simp add: open_and_write_def)
  ultimately show ?thesis
    using sem2_mod [OF assms] by (simp add: sem1_def)
qed

theorem semaphore_numbers_witness:
  "(4::nat) < 5 \<and> acquires (open_and_write 4) = [5, 4, 0] \<and> sem1 4 = 4 \<and> sem2 4 = 0"
  using semaphore_numbers [of 4] by (simp add: sem1_def sem2_def)

end
